theory Spec2Isabelle
  imports Main
begin

section \<open>Job registry (models.go)\<close>

text \<open>
  \<^verbatim>\<open>type JobStatus string\<close> with three named constants. The Go type is an open string
  type, so a status is modelled as a string and the constants as definitions.
\<close>

type_synonym JobStatus = string

definition JobStatusProcessing :: JobStatus where
  "JobStatusProcessing = ''processing''"

definition JobStatusCompleted :: JobStatus where
  "JobStatusCompleted = ''completed''"

definition JobStatusFailed :: JobStatus where
  "JobStatusFailed = ''failed''"

text \<open>
  \<^verbatim>\<open>type ProcessingJob struct { ID; Status; CreatedAt; FilePath; Error }\<close>.
  \<open>CreatedAt\<close> is a \<^verbatim>\<open>time.Time\<close>; the clock reading is a natural number that
  the caller of \<open>CreateJob\<close> supplies.
\<close>

record ProcessingJob =
  ID :: string
  Status :: JobStatus
  CreatedAt :: nat
  FilePath :: string
  Error :: string

text \<open>
  \<^verbatim>\<open>type JobStore struct { jobs map[string]*ProcessingJob; mu sync.RWMutex }\<close>.
  The map holds pointers, and \<open>CreateJob\<close> and \<open>GetJob\<close> hand these pointers out, so
  the job objects live in an explicit heap (\<open>heap\<close>, from addresses to objects) and the
  map \<open>jobs\<close> holds addresses. \<open>next_addr\<close> is the allocator: the address that the next
  \<^verbatim>\<open>&ProcessingJob{...}\<close> receives. The mutex is not part of the sequential state; it
  appears in the interleaving model further down.
\<close>

type_synonym addr = nat

record JobStore =
  heap :: "addr \<rightharpoonup> ProcessingJob"
  jobs :: "string \<rightharpoonup> addr"
  next_addr :: addr

definition NewJobStore :: JobStore where
  "NewJobStore = \<lparr>heap = Map.empty, jobs = Map.empty, next_addr = 0\<rparr>"

text \<open>
  \<^verbatim>\<open>
  func (js *JobStore) CreateJob(id string) *ProcessingJob {
      job := &ProcessingJob{ID: id, Status: JobStatusProcessing, CreatedAt: time.Now()}
      js.jobs[id] = job
      return job
  }
  \<close>
  The fields not named in the literal take Go's zero value, the empty string.
\<close>

definition CreateJob :: "JobStore \<Rightarrow> string \<Rightarrow> nat \<Rightarrow> addr \<times> JobStore" where
  "CreateJob js jid now =
     (let a = next_addr js;
          job = \<lparr>ID = jid, Status = JobStatusProcessing, CreatedAt = now,
                 FilePath = [], Error = []\<rparr>
      in (a, js\<lparr>heap := (heap js)(a \<mapsto> job),
                jobs := (jobs js)(jid \<mapsto> a),
                next_addr := Suc a\<rparr>))"

text \<open>
  \<^verbatim>\<open>
  func (js *JobStore) GetJob(id string) (*ProcessingJob, bool) {
      job, exists := js.jobs[id]
      return job, exists
  }
  \<close>
  The result is the pointer (\<open>None\<close> when \<open>exists\<close> is false), not a copy of the object.
\<close>

definition GetJob :: "JobStore \<Rightarrow> string \<Rightarrow> addr option" where
  "GetJob js jid = jobs js jid"

text \<open>Reading the object behind the pointer that \<open>GetJob\<close> returns.\<close>

definition lookupJob :: "JobStore \<Rightarrow> string \<Rightarrow> ProcessingJob option" where
  "lookupJob js jid = (case GetJob js jid of None \<Rightarrow> None | Some a \<Rightarrow> heap js a)"

text \<open>
  \<^verbatim>\<open>
  func (js *JobStore) UpdateJobStatus(id string, status JobStatus, filePath string, errorMsg string) {
      if job, exists := js.jobs[id]; exists {
          job.Status = status
          if filePath != "" { job.FilePath = filePath }
          if errorMsg != "" { job.Error = errorMsg }
      }
  }
  \<close>
  The three assignments go through the pointer, in this order.
\<close>

definition setStatus :: "JobStatus \<Rightarrow> ProcessingJob \<Rightarrow> ProcessingJob" where
  "setStatus status job = job\<lparr>Status := status\<rparr>"

definition setFilePath :: "string \<Rightarrow> ProcessingJob \<Rightarrow> ProcessingJob" where
  "setFilePath filePath job = (if filePath \<noteq> [] then job\<lparr>FilePath := filePath\<rparr> else job)"

definition setError :: "string \<Rightarrow> ProcessingJob \<Rightarrow> ProcessingJob" where
  "setError errorMsg job = (if errorMsg \<noteq> [] then job\<lparr>Error := errorMsg\<rparr> else job)"

definition UpdateJobStatus :: "JobStore \<Rightarrow> string \<Rightarrow> JobStatus \<Rightarrow> string \<Rightarrow> string \<Rightarrow> JobStore" where
  "UpdateJobStatus js jid status filePath errorMsg =
     (case jobs js jid of
        None \<Rightarrow> js
      | Some a \<Rightarrow>
          (case heap js a of
             None \<Rightarrow> js
           | Some job \<Rightarrow>
               js\<lparr>heap := (heap js)(a \<mapsto> setError errorMsg (setFilePath filePath (setStatus status job)))\<rparr>))"

text \<open>
  The shape of every store the program builds: each registered id points to an
  allocated object, below the allocator's mark, and no two ids share an object.
\<close>

definition JobStore_inv :: "JobStore \<Rightarrow> bool" where
  "JobStore_inv js \<longleftrightarrow>
     (\<forall>jid a. jobs js jid = Some a \<longrightarrow> a < next_addr js \<and> heap js a \<noteq> None) \<and>
     (\<forall>jid jid' a. jobs js jid = Some a \<and> jobs js jid' = Some a \<longrightarrow> jid = jid')"

section \<open>Strings and white space (Go's strings and unicode packages)\<close>

text \<open>
  A Go string is a sequence of bytes; \<open>string\<close> (a list of 8-bit characters) models it
  byte for byte. \<^verbatim>\<open>strings.TrimSpace\<close> removes leading and trailing runes for which
  \<^verbatim>\<open>unicode.IsSpace\<close> holds: U+0009 to U+000D, U+0020, U+0085, U+00A0, U+1680, U+2000 to
  U+200A, U+2028, U+2029, U+202F, U+205F and U+3000. UTF-8 encodes each rune by one byte
  sequence only, and a malformed sequence decodes to U+FFFD (not a space), so a string
  starts (ends) with a white-space rune exactly when it starts (ends) with one of the
  byte sequences of \<open>spaceRunes\<close>.
\<close>

definition spaceRunes :: "string list" where
  "spaceRunes =
     [[CHR 0x09], [CHR 0x0A], [CHR 0x0B], [CHR 0x0C], [CHR 0x0D], [CHR 0x20],
      [CHR 0xC2, CHR 0x85], [CHR 0xC2, CHR 0xA0],
      [CHR 0xE1, CHR 0x9A, CHR 0x80],
      [CHR 0xE2, CHR 0x80, CHR 0x80], [CHR 0xE2, CHR 0x80, CHR 0x81],
      [CHR 0xE2, CHR 0x80, CHR 0x82], [CHR 0xE2, CHR 0x80, CHR 0x83],
      [CHR 0xE2, CHR 0x80, CHR 0x84], [CHR 0xE2, CHR 0x80, CHR 0x85],
      [CHR 0xE2, CHR 0x80, CHR 0x86], [CHR 0xE2, CHR 0x80, CHR 0x87],
      [CHR 0xE2, CHR 0x80, CHR 0x88], [CHR 0xE2, CHR 0x80, CHR 0x89],
      [CHR 0xE2, CHR 0x80, CHR 0x8A],
      [CHR 0xE2, CHR 0x80, CHR 0xA8], [CHR 0xE2, CHR 0x80, CHR 0xA9],
      [CHR 0xE2, CHR 0x80, CHR 0xAF],
      [CHR 0xE2, CHR 0x81, CHR 0x9F],
      [CHR 0xE3, CHR 0x80, CHR 0x80]]"

text \<open>
  The number of bytes of the white-space rune at the front (at the back) of a string,
  0 when the first (last) rune is not white space or the string is empty.
\<close>

definition spaceWidth :: "string \<Rightarrow> nat" where
  "spaceWidth s =
     (case find (\<lambda>p. take (length p) s = p) spaceRunes of
        None \<Rightarrow> 0
      | Some p \<Rightarrow> length p)"

definition spaceWidthLast :: "string \<Rightarrow> nat" where
  "spaceWidthLast s =
     (case find (\<lambda>p. length p \<le> length s \<and> drop (length s - length p) s = p) spaceRunes of
        None \<Rightarrow> 0
      | Some p \<Rightarrow> length p)"

lemma spaceRunes_nonempty: "p \<in> set spaceRunes \<Longrightarrow> p \<noteq> []"
  by (auto simp: spaceRunes_def)

lemma spaceWidth_le: "spaceWidth s \<le> length s"
proof (cases "find (\<lambda>p. take (length p) s = p) spaceRunes")
  case None
  then show ?thesis by (simp add: spaceWidth_def)
next
  case (Some p)
  then have "take (length p) s = p" by (auto simp: find_Some_iff)
  then have "length (take (length p) s) = length p" by simp
  then have "length p \<le> length s" by simp
  with Some show ?thesis by (simp add: spaceWidth_def)
qed

lemma spaceWidthLast_le: "spaceWidthLast s \<le> length s"
  by (auto simp: spaceWidthLast_def find_Some_iff split: option.splits)

text \<open>\<^verbatim>\<open>strings.TrimLeftFunc(s, unicode.IsSpace)\<close>: drop white-space runes from the front.\<close>

function TrimLeft :: "string \<Rightarrow> string" where
  "TrimLeft s = (if spaceWidth s = 0 then s else TrimLeft (drop (spaceWidth s) s))"
  by pat_completeness auto
termination
proof (relation "measure length")
  show "wf (measure length)" by simp
next
  fix s :: string
  assume "spaceWidth s \<noteq> 0"
  moreover have "spaceWidth s \<le> length s" by (rule spaceWidth_le)
  ultimately show "(drop (spaceWidth s) s, s) \<in> measure length" by simp
qed

text \<open>\<^verbatim>\<open>strings.TrimRightFunc(s, unicode.IsSpace)\<close>: drop white-space runes from the back.\<close>

function TrimRight :: "string \<Rightarrow> string" where
  "TrimRight s =
     (if spaceWidthLast s = 0 then s else TrimRight (take (length s - spaceWidthLast s) s))"
  by pat_completeness auto
termination
proof (relation "measure length")
  show "wf (measure length)" by simp
next
  fix s :: string
  assume "spaceWidthLast s \<noteq> 0"
  moreover have "spaceWidthLast s \<le> length s" by (rule spaceWidthLast_le)
  ultimately show "(take (length s - spaceWidthLast s) s, s) \<in> measure length" by simp
qed

declare TrimLeft.simps [simp del] TrimRight.simps [simp del]

text \<open>
  \<^verbatim>\<open>strings.TrimSpace(s)\<close>. Go's implementation has a fast path for ASCII and falls back
  to \<^verbatim>\<open>TrimFunc(s, unicode.IsSpace)\<close>; both compute the left trim followed by the right
  trim.
\<close>

definition TrimSpace :: "string \<Rightarrow> string" where
  "TrimSpace s = TrimRight (TrimLeft s)"

section \<open>Regular expressions (Go's regexp package)\<close>

text \<open>
  The syntax tree of a pattern, with the operators of \<^verbatim>\<open>regexp/syntax\<close> that the
  program's pattern uses. A character class is a list of inclusive byte ranges. The
  classes of the pattern are ASCII and it has no \<^verbatim>\<open>.\<close> wildcard, so no rune
  outside ASCII (and no malformed byte) matches any part of it, and matching runes is
  matching bytes.
\<close>

datatype regexp =
    EmptyMatch
  | Literal char
  | CharClass "(char \<times> char) list"
  | Concat regexp regexp
  | Star regexp
  | Quest regexp
  | BeginText
  | EndText

definition inClass :: "(char \<times> char) list \<Rightarrow> char \<Rightarrow> bool" where
  "inClass ranges c =
     list_ex (\<lambda>(lo, hi). (of_char lo :: nat) \<le> of_char c \<and> (of_char c :: nat) \<le> of_char hi) ranges"

text \<open>\<^verbatim>\<open>x{n,}\<close>: n copies of x followed by \<^verbatim>\<open>x*\<close>.\<close>

fun Repeat :: "nat \<Rightarrow> regexp \<Rightarrow> regexp" where
  "Repeat 0 r = Star r"
| "Repeat (Suc n) r = Concat r (Repeat n r)"

fun Concats :: "regexp list \<Rightarrow> regexp" where
  "Concats [] = EmptyMatch"
| "Concats [r] = r"
| "Concats (r # rs) = Concat r (Concats rs)"

text \<open>
  \<open>matchAt atBegin atEnd r w\<close>: the pattern \<open>r\<close> matches exactly the piece \<open>w\<close> of a
  text, where \<open>atBegin\<close> says that the piece starts at the beginning of the text and
  \<open>atEnd\<close> that it stops at the end of the text. \<^verbatim>\<open>^\<close> and \<^verbatim>\<open>$\<close> (without the
  multi-line flag) are the zero-width assertions "beginning of text" and "end of text".
  A concatenation tries every way of cutting the piece in two; a star takes a non-empty
  first piece and repeats on the rest.
\<close>

function matchAt :: "bool \<Rightarrow> bool \<Rightarrow> regexp \<Rightarrow> string \<Rightarrow> bool" where
  "matchAt atBegin atEnd EmptyMatch w = (w = [])"
| "matchAt atBegin atEnd (Literal c) w = (w = [c])"
| "matchAt atBegin atEnd (CharClass ranges) w =
     (case w of [c] \<Rightarrow> inClass ranges c | _ \<Rightarrow> False)"
| "matchAt atBegin atEnd (Concat r1 r2) w =
     list_ex (\<lambda>i. matchAt atBegin (atEnd \<and> i = length w) r1 (take i w) \<and>
                  matchAt (atBegin \<and> i = 0) atEnd r2 (drop i w))
       [0..<Suc (length w)]"
| "matchAt atBegin atEnd (Star r) w =
     (w = [] \<or>
      list_ex (\<lambda>i. matchAt atBegin (atEnd \<and> Suc i = length w) r (take (Suc i) w) \<and>
                   matchAt False atEnd (Star r) (drop (Suc i) w))
        [0..<length w])"
| "matchAt atBegin atEnd (Quest r) w = (w = [] \<or> matchAt atBegin atEnd r w)"
| "matchAt atBegin atEnd BeginText w = (w = [] \<and> atBegin)"
| "matchAt atBegin atEnd EndText w = (w = [] \<and> atEnd)"
  by pat_completeness auto
termination
  by (relation "measures [\<lambda>(b, e, r, w). size r, \<lambda>(b, e, r, w). length w]") auto

declare matchAt.simps [simp del]

text \<open>
  \<^verbatim>\<open>(*Regexp).MatchString(s)\<close> reports whether \<open>s\<close> contains any match of the pattern:
  some piece of \<open>s\<close>, from position \<open>i\<close> to position \<open>j\<close>, matches.
\<close>

definition MatchString :: "regexp \<Rightarrow> string \<Rightarrow> bool" where
  "MatchString re s =
     list_ex (\<lambda>i. list_ex (\<lambda>j. matchAt (i = 0) (j = length s) re (take (j - i) (drop i s)))
                     [i..<Suc (length s)])
       [0..<Suc (length s)]"

section \<open>Email validation (email\_validator.go)\<close>

text \<open>
  \<^verbatim>\<open>
  emailPattern := `^[a-zA-Z0-9]([a-zA-Z0-9._%+-]*[a-zA-Z0-9])?@[a-zA-Z0-9]([a-zA-Z0-9.-]*[a-zA-Z0-9])?\.[a-zA-Z]{2,}$`
  emailRegex := regexp.MustCompile(emailPattern)
  \<close>
  The pattern parses; its tree is written out piece by piece.
\<close>

definition alnumClass :: regexp where
  "alnumClass = CharClass [(CHR ''a'', CHR ''z''), (CHR ''A'', CHR ''Z''), (CHR ''0'', CHR ''9'')]"

definition localClass :: regexp where
  "localClass = CharClass [(CHR ''a'', CHR ''z''), (CHR ''A'', CHR ''Z''), (CHR ''0'', CHR ''9''),
     (CHR ''.'', CHR ''.''), (CHR ''_'', CHR ''_''), (CHR ''%'', CHR ''%''),
     (CHR ''+'', CHR ''+''), (CHR ''-'', CHR ''-'')]"

definition domainClass :: regexp where
  "domainClass = CharClass [(CHR ''a'', CHR ''z''), (CHR ''A'', CHR ''Z''), (CHR ''0'', CHR ''9''),
     (CHR ''.'', CHR ''.''), (CHR ''-'', CHR ''-'')]"

definition letterClass :: regexp where
  "letterClass = CharClass [(CHR ''a'', CHR ''z''), (CHR ''A'', CHR ''Z'')]"

definition emailRegex :: regexp where
  "emailRegex =
     Concats [BeginText,
              alnumClass, Quest (Concat (Star localClass) alnumClass),
              Literal (CHR ''@''),
              alnumClass, Quest (Concat (Star domainClass) alnumClass),
              Literal (CHR ''.''),
              Repeat 2 letterClass,
              EndText]"

text \<open>
  \<^verbatim>\<open>
  func (ev *EmailValidator) IsValidEmail(email string) bool {
      email = strings.TrimSpace(email)
      if email == "" { return false }
      return ev.emailRegex.MatchString(email)
  }
  \<close>
\<close>

definition IsValidEmail :: "string \<Rightarrow> bool" where
  "IsValidEmail email =
     (let email = TrimSpace email
      in if email = [] then False else MatchString emailRegex email)"

text \<open>
  \<^verbatim>\<open>
  func (ev *EmailValidator) HasValidEmail(fields []string) bool {
      for _, field := range fields {
          if ev.IsValidEmail(field) { return true }
      }
      return false
  }
  \<close>
\<close>

fun HasValidEmail :: "string list \<Rightarrow> bool" where
  "HasValidEmail [] = False"
| "HasValidEmail (field # rest) = (if IsValidEmail field then True else HasValidEmail rest)"

section \<open>CSV reading (Go's encoding/csv, Reader)\<close>

text \<open>
  \<^verbatim>\<open>csv.NewReader(inputFile)\<close> with its defaults: \<^verbatim>\<open>Comma = ','\<close>, no comment
  character, \<^verbatim>\<open>FieldsPerRecord = 0\<close>, \<^verbatim>\<open>LazyQuotes = false\<close>,
  \<^verbatim>\<open>TrimLeadingSpace = false\<close>. The model follows \<^verbatim>\<open>readLine\<close> and
  \<^verbatim>\<open>readRecord\<close> of the package.

  \<^verbatim>\<open>readLine\<close> returns the input up to and including the next newline. A final line
  without newline is returned as it is, less one trailing carriage return; a line that
  ends in carriage return and newline has the pair replaced by a newline. The lines do
  not depend on how they are parsed, so the reader holds the list of the lines that the
  successive calls of \<^verbatim>\<open>readLine\<close> return before \<^verbatim>\<open>io.EOF\<close>.
\<close>

definition NL :: char where "NL = CHR 0x0A"
definition CR :: char where "CR = CHR 0x0D"
definition quoteChar :: char where "quoteChar = CHR 0x22"
definition Comma :: char where "Comma = CHR '',''"

fun rawLines :: "string \<Rightarrow> string \<Rightarrow> string list" where
  "rawLines cur [] = (if cur = [] then [] else [cur])"
| "rawLines cur (c # cs) = (if c = NL then (cur @ [NL]) # rawLines [] cs else rawLines (cur @ [c]) cs)"

definition normalizeLine :: "string \<Rightarrow> string" where
  "normalizeLine line =
     (if line \<noteq> [] \<and> last line = NL then
        (if 2 \<le> length line \<and> last (butlast line) = CR
         then butlast (butlast line) @ [NL] else line)
      else if line \<noteq> [] \<and> last line = CR then butlast line
      else line)"

definition readLines :: "string \<Rightarrow> string list" where
  "readLines input = map normalizeLine (rawLines [] input)"

text \<open>\<^verbatim>\<open>lengthNL(b)\<close> is 1 when \<open>b\<close> ends in a newline, else 0.\<close>

definition lengthNL :: "string \<Rightarrow> nat" where
  "lengthNL b = (if b \<noteq> [] \<and> last b = NL then 1 else 0)"

datatype csv_error = ErrBareQuote | ErrQuote | ErrFieldCount

text \<open>
  The field loop of \<^verbatim>\<open>readRecord\<close>. \<open>parseField line rest acc\<close> parses the remainder
  \<open>line\<close> of the current line; \<open>rest\<close> are the lines not yet read and \<open>acc\<close> the
  fields of the record so far. \<open>parseQuoted\<close> is the inner loop of a quoted field, which
  reads further lines until the closing quote; \<open>buf\<close> is the text of the field so far.
  The result is the error (if any), the fields completed, and the lines left.
\<close>

function parseField :: "string \<Rightarrow> string list \<Rightarrow> string list \<Rightarrow> csv_error option \<times> string list \<times> string list"
  and parseQuoted :: "string \<Rightarrow> string list \<Rightarrow> string list \<Rightarrow> string \<Rightarrow> csv_error option \<times> string list \<times> string list"
  where
  "parseField line rest acc =
     (if line = [] \<or> hd line \<noteq> quoteChar then
        (let found = dropWhile (\<lambda>c. c \<noteq> Comma) line;
             field = (if found \<noteq> [] then takeWhile (\<lambda>c. c \<noteq> Comma) line
                      else take (length line - lengthNL line) line)
         in if quoteChar \<in> set field then (Some ErrBareQuote, acc, rest)
            else if found \<noteq> [] then parseField (tl found) rest (acc @ [field])
            else (None, acc @ [field], rest))
      else parseQuoted (tl line) rest acc [])"
| "parseQuoted line rest acc buf =
     (let found = dropWhile (\<lambda>c. c \<noteq> quoteChar) line
      in if found \<noteq> [] then
           (let buf' = buf @ takeWhile (\<lambda>c. c \<noteq> quoteChar) line;
                line' = tl found
            in if line' \<noteq> [] \<and> hd line' = quoteChar then
                 parseQuoted (tl line') rest acc (buf' @ [quoteChar])
               else if line' \<noteq> [] \<and> hd line' = Comma then
                 parseField (tl line') rest (acc @ [buf'])
               else if lengthNL line' = length line' then
                 (None, acc @ [buf'], rest)
               else (Some ErrQuote, acc, rest))
         else if line \<noteq> [] then
           (case rest of
              [] \<Rightarrow> parseQuoted [] [] acc (buf @ line)
            | l # ls \<Rightarrow> parseQuoted l ls acc (buf @ line))
         else (Some ErrQuote, acc, rest))"
  by pat_completeness auto
termination
proof (relation "measures [\<lambda>x. case x of Inl (line, rest, acc) \<Rightarrow> length rest
                                       | Inr (line, rest, acc, buf) \<Rightarrow> length rest,
                           \<lambda>x. case x of Inl (line, rest, acc) \<Rightarrow> length line
                                       | Inr (line, rest, acc, buf) \<Rightarrow> length line]",
       goal_cases)
  case 1
  then show ?case by simp
next
  case (2 line rest acc found field)
  have "length (dropWhile (\<lambda>c. c \<noteq> Comma) line) \<le> length line"
    by (rule length_dropWhile_le)
  with 2 show ?case by (cases "dropWhile (\<lambda>c. c \<noteq> Comma) line") auto
next
  case (3 line rest acc)
  then show ?case by (cases line) auto
next
  case (4 line rest acc buf found buf' line')
  have "length (dropWhile (\<lambda>c. c \<noteq> quoteChar) line) \<le> length line"
    by (rule length_dropWhile_le)
  with 4 show ?case
    by (cases "dropWhile (\<lambda>c. c \<noteq> quoteChar) line"; cases "tl (dropWhile (\<lambda>c. c \<noteq> quoteChar) line)")
       auto
next
  case (5 line rest acc buf found buf' line')
  have "length (dropWhile (\<lambda>c. c \<noteq> quoteChar) line) \<le> length line"
    by (rule length_dropWhile_le)
  with 5 show ?case
    by (cases "dropWhile (\<lambda>c. c \<noteq> quoteChar) line"; cases "tl (dropWhile (\<lambda>c. c \<noteq> quoteChar) line)")
       auto
next
  case (6 line rest acc buf found)
  then show ?case by simp
next
  case (7 line rest acc buf found l ls)
  then show ?case by simp
qed

declare parseField.simps [simp del] parseQuoted.simps [simp del]

text \<open>
  \<^verbatim>\<open>type Reader struct\<close>: the lines not yet read and \<^verbatim>\<open>FieldsPerRecord\<close> (0: take
  the number of fields of the first record; positive: every record must have this many;
  negative: no check).
\<close>

record Reader =
  pending :: "string list"
  FieldsPerRecord :: int

definition NewReader :: "string \<Rightarrow> Reader" where
  "NewReader input = \<lparr>pending = readLines input, FieldsPerRecord = 0\<rparr>"

datatype read_error = EOF | ParseError csv_error

text \<open>
  \<^verbatim>\<open>(*Reader).Read\<close>, that is \<^verbatim>\<open>readRecord\<close>: skip empty lines, return
  \<^verbatim>\<open>io.EOF\<close> at the end of the input, parse the fields, then check or set the
  expected number of fields. A record with the wrong number of fields is returned
  together with \<^verbatim>\<open>ErrFieldCount\<close>.
\<close>

definition isEmptyLine :: "string \<Rightarrow> bool" where
  "isEmptyLine line \<longleftrightarrow> length line = lengthNL line"

definition Read :: "Reader \<Rightarrow> (string list \<times> read_error option) \<times> Reader" where
  "Read r =
     (case dropWhile isEmptyLine (pending r) of
        [] \<Rightarrow> (([], Some EOF), r\<lparr>pending := []\<rparr>)
      | line # rest \<Rightarrow>
          (case parseField line rest [] of
             (err, dst, rest') \<Rightarrow>
               (if 0 < FieldsPerRecord r then
                  (if int (length dst) \<noteq> FieldsPerRecord r \<and> err = None
                   then ((dst, Some (ParseError ErrFieldCount)), r\<lparr>pending := rest'\<rparr>)
                   else ((dst, map_option ParseError err), r\<lparr>pending := rest'\<rparr>))
                else if FieldsPerRecord r = 0 then
                  ((dst, map_option ParseError err),
                   r\<lparr>pending := rest', FieldsPerRecord := int (length dst)\<rparr>)
                else ((dst, map_option ParseError err), r\<lparr>pending := rest'\<rparr>))))"

section \<open>CSV writing (Go's encoding/csv, Writer)\<close>

text \<open>
  \<^verbatim>\<open>csv.NewWriter(outputFile)\<close> with its defaults: \<^verbatim>\<open>Comma = ','\<close>,
  \<^verbatim>\<open>UseCRLF = false\<close>. \<^verbatim>\<open>fieldNeedsQuotes\<close>: the empty field does not; the field
  \<^verbatim>\<open>\.\<close> does; a field with a comma, a quote, a carriage return or a newline does;
  otherwise a field does exactly when its first rune is white space.
\<close>

definition fieldNeedsQuotes :: "string \<Rightarrow> bool" where
  "fieldNeedsQuotes field =
     (if field = [] then False
      else if field = [CHR 0x5C, CHR ''.''] then True
      else if list_ex (\<lambda>c. c = NL \<or> c = CR \<or> c = quoteChar \<or> c = Comma) field then True
      else spaceWidth field \<noteq> 0)"

text \<open>Inside quotes a quote is doubled; carriage return and newline are written as they are.\<close>

fun quoteBody :: "string \<Rightarrow> string" where
  "quoteBody [] = []"
| "quoteBody (c # cs) = (if c = quoteChar then [quoteChar, quoteChar] else [c]) @ quoteBody cs"

definition writeField :: "string \<Rightarrow> string" where
  "writeField field =
     (if fieldNeedsQuotes field then [quoteChar] @ quoteBody field @ [quoteChar] else field)"

text \<open>\<^verbatim>\<open>(*Writer).Write(record)\<close>: the bytes of one record, fields separated by commas, then a newline.\<close>

fun joinFields :: "string list \<Rightarrow> string" where
  "joinFields [] = []"
| "joinFields [f] = writeField f"
| "joinFields (f # fs) = writeField f @ [Comma] @ joinFields fs"

definition Writer_Write :: "string list \<Rightarrow> string" where
  "Writer_Write record = joinFields record @ [NL]"

section \<open>CSV processing (csv\_processor.go)\<close>

text \<open>
  Each call of \<open>Read\<close> that returns a record consumes at least one line, so the loop of
  \<open>ProcessCSV\<close> terminates.
\<close>

lemma parse_rest_le:
  "length (snd (snd (parseField line rest acc))) \<le> length rest"
  "length (snd (snd (parseQuoted line rest acc buf))) \<le> length rest"
proof (induction line rest acc and line rest acc buf rule: parseField_parseQuoted.induct)
  case (1 line rest acc)
  show ?case
    using 1 by (subst parseField.simps) (simp add: Let_def)
next
  case (2 line rest acc buf)
  show ?case
  proof (cases "dropWhile (\<lambda>c. c \<noteq> quoteChar) line \<noteq> []")
    case True
    with 2(1,2) show ?thesis
      by (subst parseQuoted.simps) (simp add: Let_def)
  next
    case False
    show ?thesis
    proof (cases rest)
      case Nil
      with False 2(3) show ?thesis
        by (subst parseQuoted.simps) (simp add: Let_def)
    next
      case (Cons l ls)
      with False 2(4)[of "dropWhile (\<lambda>c. c \<noteq> quoteChar) line" l ls] show ?thesis
        by (subst parseQuoted.simps) (auto simp: Let_def)
    qed
  qed
qed

lemma Read_consumes:
  assumes "Read r = ((dst, err), r')" and "err \<noteq> Some EOF"
  shows "length (pending r') < length (pending r)"
proof (cases "dropWhile isEmptyLine (pending r)")
  case Nil
  with assms show ?thesis by (simp add: Read_def)
next
  case (Cons line rest)
  have "length (dropWhile isEmptyLine (pending r)) \<le> length (pending r)"
    by (rule length_dropWhile_le)
  then have shorter: "length rest < length (pending r)" using Cons by simp
  obtain e d rest' where p: "parseField line rest [] = (e, d, rest')"
    by (cases "parseField line rest []") auto
  have "length rest' \<le> length rest"
    using parse_rest_le(1)[of line rest "[]"] p by simp
  moreover have "pending r' = rest'"
    using assms(1) Cons p by (auto simp: Read_def split: if_splits)
  ultimately show ?thesis using shorter by simp
qed

text \<open>
  The errors that \<open>ProcessCSV\<close> and \<open>SaveUploadedFile\<close> return, one constructor for each
  \<^verbatim>\<open>fmt.Errorf\<close> of the source; the row number of the message is kept.
\<close>

datatype error =
    OpenFailed
  | CreateFailed
  | ReadFailed nat csv_error
  | WriteFailed nat
  | MkdirFailed
  | WriteFileFailed

text \<open>
  \<^verbatim>\<open>len(record) == 0 || (len(record) == 1 && strings.TrimSpace(record[0]) == "")\<close>,
  the test under the comment "Skip empty rows".
\<close>

definition emptyRow :: "string list \<Rightarrow> bool" where
  "emptyRow record \<longleftrightarrow> length record = 0 \<or> (length record = 1 \<and> TrimSpace (record ! 0) = [])"

text \<open>
  The loop of \<open>ProcessCSV\<close>:
  \<^verbatim>\<open>
  rowNum := 0
  for {
      record, err := reader.Read()
      if err == io.EOF { break }
      if err != nil { return fmt.Errorf("failed to read CSV row %d: %w", rowNum, err) }
      if len(record) == 0 || (len(record) == 1 && strings.TrimSpace(record[0]) == "") { continue }
      if rowNum == 0 { record = append(record, "has_email") }
      else { hasEmail := cp.validator.HasValidEmail(record)
             record = append(record, fmt.Sprintf("%t", hasEmail)) }
      if err := writer.Write(record); err != nil {
          return fmt.Errorf("failed to write CSV row %d: %w", rowNum, err) }
      rowNum++
  }
  return nil
  \<close>
  \<open>written\<close> is the list of the records handed to the writer so far. Whether
  \<^verbatim>\<open>writer.Write\<close> returns an error for row \<open>rowNum\<close> is a property of the
  environment, the parameter \<open>writeOK\<close>.
\<close>

function ProcessCSV_loop ::
  "(nat \<Rightarrow> bool) \<Rightarrow> Reader \<Rightarrow> nat \<Rightarrow> string list list \<Rightarrow> error option \<times> string list list" where
  "ProcessCSV_loop writeOK reader rowNum written =
     (case Read reader of
        ((record, Some EOF), reader') \<Rightarrow> (None, written)
      | ((record, Some (ParseError e)), reader') \<Rightarrow> (Some (ReadFailed rowNum e), written)
      | ((record, None), reader') \<Rightarrow>
          if emptyRow record then ProcessCSV_loop writeOK reader' rowNum written
          else
            (let record' =
                   (if rowNum = 0 then record @ [''has_email'']
                    else record @ [if HasValidEmail record then ''true'' else ''false''])
             in if writeOK rowNum
                then ProcessCSV_loop writeOK reader' (Suc rowNum) (written @ [record'])
                else (Some (WriteFailed rowNum), written)))"
  by pat_completeness auto
termination
proof (relation "measure (\<lambda>(writeOK, reader, rowNum, written). length (pending reader))", goal_cases)
  case 1
  then show ?case by simp
next
  case (2 writeOK reader rowNum written x1 reader' rcd err)
  then have "Read reader = ((rcd, None), reader')" by simp
  from Read_consumes[OF this] show ?case by simp
next
  case (3 writeOK reader rowNum written x1 reader' rcd err x)
  then have "Read reader = ((rcd, None), reader')" by simp
  from Read_consumes[OF this] show ?case by simp
qed

declare ProcessCSV_loop.simps [simp del]

text \<open>
  The files that the program reads and writes: \<open>files\<close> maps a path to the bytes stored
  there. What the operating system does with a request is a property of the environment:
  \<^item> \<open>canCreate path\<close>: \<^verbatim>\<open>os.Create\<close>, \<^verbatim>\<open>os.WriteFile\<close> and \<^verbatim>\<open>os.MkdirAll\<close>
    succeed on the path;
  \<^item> \<open>canWrite path n\<close>: the file at the path accepts the bytes of row \<open>n\<close>;
  \<^item> \<open>flushesAt path n\<close>: while row \<open>n\<close> is written, the buffer of the writer (4096 bytes,
    a \<^verbatim>\<open>bufio.Writer\<close>) runs over, so that the call of \<^verbatim>\<open>writer.Write\<close> sends
    bytes to the file; only then can the call see that the file refuses them;
  \<^item> \<open>truncated path\<close>: the bytes that the file at the path holds after it has refused
    a write.
\<close>

record FileSystem =
  files :: "string \<rightharpoonup> string"
  canCreate :: "string \<Rightarrow> bool"
  canWrite :: "string \<Rightarrow> nat \<Rightarrow> bool"
  flushesAt :: "string \<Rightarrow> nat \<Rightarrow> bool"
  truncated :: "string \<Rightarrow> string"

text \<open>
  \<^verbatim>\<open>writer.Write(record)\<close> for row \<open>n\<close> returns no error when the file accepts the row,
  and also when the row only goes to the buffer.
\<close>

definition writeReturns :: "FileSystem \<Rightarrow> string \<Rightarrow> nat \<Rightarrow> bool" where
  "writeReturns fs path n \<longleftrightarrow> canWrite fs path n \<or> \<not> flushesAt fs path n"

text \<open>
  What the file holds after the deferred \<^verbatim>\<open>writer.Flush()\<close> and
  \<^verbatim>\<open>outputFile.Close()\<close>, whose errors the program does not look at: the encoding
  of the records handed to the writer when the file has accepted every one of them, and
  what a refused write leaves otherwise.
\<close>

definition stored :: "FileSystem \<Rightarrow> string \<Rightarrow> string list list \<Rightarrow> string" where
  "stored fs path written =
     (if list_all (canWrite fs path) [0..<length written]
      then concat (map Writer_Write written)
      else truncated fs path)"

text \<open>
  \<^verbatim>\<open>
  func (cp *CSVProcessor) ProcessCSV(inputPath, outputPath string) error {
      inputFile, err := os.Open(inputPath)
      if err != nil { return fmt.Errorf("failed to open input file: %w", err) }
      defer inputFile.Close()
      outputFile, err := os.Create(outputPath)
      if err != nil { return fmt.Errorf("failed to create output file: %w", err) }
      defer outputFile.Close()
      reader := csv.NewReader(inputFile)
      writer := csv.NewWriter(outputFile)
      defer writer.Flush()
      ... the loop ...
  }
  \<close>
  \<^verbatim>\<open>os.Create\<close> truncates the destination before the first row is read, so the
  reader sees the input file as it is after the truncation. The result is the error of
  the loop alone: a refusal that only the deferred \<^verbatim>\<open>Flush\<close> or \<^verbatim>\<open>Close\<close> meets
  is not reported, and the function then returns \<^verbatim>\<open>nil\<close> with a file that lacks
  rows.
\<close>

definition ProcessCSV :: "FileSystem \<Rightarrow> string \<Rightarrow> string \<Rightarrow> error option \<times> FileSystem" where
  "ProcessCSV fs inputPath outputPath =
     (case files fs inputPath of
        None \<Rightarrow> (Some OpenFailed, fs)
      | Some _ \<Rightarrow>
          if \<not> canCreate fs outputPath then (Some CreateFailed, fs)
          else
            (let fs1 = fs\<lparr>files := (files fs)(outputPath \<mapsto> [])\<rparr>;
                 input = (case files fs1 inputPath of None \<Rightarrow> [] | Some bytes \<Rightarrow> bytes);
                 (err, written) =
                   ProcessCSV_loop (writeReturns fs outputPath) (NewReader input) 0 []
             in (err, fs1\<lparr>files := (files fs1)(outputPath \<mapsto> stored fs outputPath written)\<rparr>)))"

text \<open>
  \<^verbatim>\<open>filepath.Join("uploads", name)\<close>, that is \<^verbatim>\<open>Clean("uploads/" + name)\<close>. The
  program joins the directory with a single file name: \<^verbatim>\<open>processed_<id>.csv\<close> and
  \<^verbatim>\<open>upload_<id>_<name>\<close>, where the id is a UUID and the name is the
  \<^verbatim>\<open>Filename\<close> of the multipart header, which holds no separator. On such a name
  (not empty, no separator, neither \<^verbatim>\<open>.\<close> nor \<^verbatim>\<open>..\<close>) \<^verbatim>\<open>Clean\<close> changes
  nothing, and the definition gives the value of \<^verbatim>\<open>Join\<close> on these names only: a
  name with a separator or a dot segment is not in its domain.
\<close>

definition filepath_Join :: "string \<Rightarrow> string \<Rightarrow> string" where
  "filepath_Join dir name = dir @ ''/'' @ name"

text \<open>
  \<^verbatim>\<open>
  func (cp *CSVProcessor) SaveUploadedFile(fileData []byte, filename string) (string, error) {
      uploadsDir := "uploads"
      if err := os.MkdirAll(uploadsDir, 0755); err != nil { return "", ... }
      filePath := filepath.Join(uploadsDir, filename)
      if err := os.WriteFile(filePath, fileData, 0644); err != nil { return "", ... }
      return filePath, nil
  }
  \<close>
\<close>

definition SaveUploadedFile :: "FileSystem \<Rightarrow> string \<Rightarrow> string \<Rightarrow> (error + string) \<times> FileSystem" where
  "SaveUploadedFile fs fileData filename =
     (let uploadsDir = ''uploads''
      in if \<not> canCreate fs uploadsDir then (Inl MkdirFailed, fs)
         else
           (let filePath = filepath_Join uploadsDir filename
            in if \<not> canCreate fs filePath then (Inl WriteFileFailed, fs)
               else (Inr filePath, fs\<lparr>files := (files fs)(filePath \<mapsto> fileData)\<rparr>)))"

text \<open>\<^verbatim>\<open>filepath.Join("uploads", fmt.Sprintf("processed_%s.csv", jobID))\<close>\<close>

definition GetProcessedFilePath :: "string \<Rightarrow> string" where
  "GetProcessedFilePath jobID = filepath_Join ''uploads'' (''processed_'' @ jobID @ ''.csv'')"

section \<open>The background worker (handlers.go)\<close>

text \<open>
  \<^verbatim>\<open>
  func (app *App) processFileAsync(jobID string, fileData []byte, filename string) {
      uploadPath, err := app.csvProcessor.SaveUploadedFile(fileData, fmt.Sprintf("upload_%s_%s", jobID, filename))
      if err != nil {
          app.jobStore.UpdateJobStatus(jobID, JobStatusFailed, "", fmt.Sprintf("Failed to save uploaded file: %v", err))
          return
      }
      processedPath := app.csvProcessor.GetProcessedFilePath(jobID)
      err = app.csvProcessor.ProcessCSV(uploadPath, processedPath)
      if err != nil {
          app.jobStore.UpdateJobStatus(jobID, JobStatusFailed, "", fmt.Sprintf("Failed to process CSV: %v", err))
          return
      }
      app.jobStore.UpdateJobStatus(jobID, JobStatusCompleted, processedPath, "")
  }
  \<close>
  \<open>showError\<close> is the text that \<^verbatim>\<open>%v\<close> prints for an error (it includes the message
  of the operating system or of the CSV reader), a parameter.
\<close>

definition processFileAsync ::
  "(error \<Rightarrow> string) \<Rightarrow> JobStore \<Rightarrow> FileSystem \<Rightarrow> string \<Rightarrow> string \<Rightarrow> string \<Rightarrow> JobStore \<times> FileSystem" where
  "processFileAsync showError js fs jobID fileData filename =
     (case SaveUploadedFile fs fileData (''upload_'' @ jobID @ ''_'' @ filename) of
        (Inl err, fs') \<Rightarrow>
          (UpdateJobStatus js jobID JobStatusFailed []
             (''Failed to save uploaded file: '' @ showError err), fs')
      | (Inr uploadPath, fs') \<Rightarrow>
          (let processedPath = GetProcessedFilePath jobID
           in case ProcessCSV fs' uploadPath processedPath of
                (Some err, fs'') \<Rightarrow>
                  (UpdateJobStatus js jobID JobStatusFailed []
                     (''Failed to process CSV: '' @ showError err), fs'')
              | (None, fs'') \<Rightarrow>
                  (UpdateJobStatus js jobID JobStatusCompleted processedPath [], fs'')))"

section \<open>Properties of the job registry\<close>

lemma NewJobStore_inv: "JobStore_inv NewJobStore"
  by (simp add: JobStore_inv_def NewJobStore_def)

lemma CreateJob_inv:
  assumes "JobStore_inv js"
  shows "JobStore_inv (snd (CreateJob js jid now))"
proof -
  have below: "\<And>i a. jobs js i = Some a \<Longrightarrow> a < next_addr js \<and> heap js a \<noteq> None"
    using assms by (auto simp: JobStore_inv_def)
  have inj: "\<And>i i' a. jobs js i = Some a \<Longrightarrow> jobs js i' = Some a \<Longrightarrow> i = i'"
    using assms unfolding JobStore_inv_def by blast
  show ?thesis
    unfolding JobStore_inv_def CreateJob_def Let_def
    apply (simp split: if_splits)
    apply (intro conjI allI impI)
    using below inj by (fastforce split: if_splits)+
qed

lemma UpdateJobStatus_inv:
  assumes "JobStore_inv js"
  shows "JobStore_inv (UpdateJobStatus js jid status filePath errorMsg)"
  using assms
  by (auto simp: JobStore_inv_def UpdateJobStatus_def split: option.splits)

lemma lookupJob_Some_iff:
  "lookupJob js jid = Some job \<longleftrightarrow> (\<exists>a. jobs js jid = Some a \<and> heap js a = Some job)"
  by (auto simp: lookupJob_def GetJob_def split: option.splits)

lemma inv_lookup_None:
  "JobStore_inv js \<Longrightarrow> lookupJob js jid = None \<longleftrightarrow> GetJob js jid = None"
  by (auto simp: JobStore_inv_def lookupJob_def GetJob_def split: option.splits)

lemma UpdateJobStatus_absent:
  "GetJob js jid = None \<Longrightarrow> UpdateJobStatus js jid status filePath errorMsg = js"
  by (simp add: UpdateJobStatus_def GetJob_def)

lemma UpdateJobStatus_jobs:
  "jobs (UpdateJobStatus js jid status filePath errorMsg) = jobs js"
  by (simp add: UpdateJobStatus_def split: option.splits)

lemma UpdateJobStatus_present:
  assumes "lookupJob js jid = Some job"
  shows "lookupJob (UpdateJobStatus js jid status filePath errorMsg) jid =
           Some (job\<lparr>Status := status,
                      FilePath := (if filePath = [] then FilePath job else filePath),
                      Error := (if errorMsg = [] then Error job else errorMsg)\<rparr>)"
proof -
  from assms obtain a where a: "jobs js jid = Some a" "heap js a = Some job"
    by (auto simp: lookupJob_Some_iff)
  then show ?thesis
    by (simp add: UpdateJobStatus_def lookupJob_def GetJob_def setStatus_def
        setFilePath_def setError_def)
qed

lemma UpdateJobStatus_others:
  assumes "JobStore_inv js" and "other \<noteq> jid"
  shows "lookupJob (UpdateJobStatus js jid status filePath errorMsg) other = lookupJob js other"
proof (cases "jobs js jid")
  case None
  then show ?thesis by (simp add: UpdateJobStatus_def)
next
  case (Some a)
  have "jobs js other \<noteq> Some a"
    using assms Some unfolding JobStore_inv_def by blast
  with Some show ?thesis
    by (auto simp: UpdateJobStatus_def lookupJob_def GetJob_def split: option.splits)
qed

text \<open>
  Claim C3. \<open>UpdateJobStatus\<close> on an id with no record returns the store as it was (same
  map, same objects; the function has no error result). On an id with a record it sets
  the status to the argument, sets the output location only when the argument is
  non-empty, sets the error message only when the argument is non-empty, keeps the set of
  registered ids, and leaves the record of every other id as it was.
\<close>

theorem UpdateJobStatus_contract:
  assumes "JobStore_inv js"
  shows "(GetJob js jid = None \<longrightarrow>
            UpdateJobStatus js jid status filePath errorMsg = js) \<and>
         (\<forall>job. lookupJob js jid = Some job \<longrightarrow>
            lookupJob (UpdateJobStatus js jid status filePath errorMsg) jid =
              Some (job\<lparr>Status := status,
                         FilePath := (if filePath = [] then FilePath job else filePath),
                         Error := (if errorMsg = [] then Error job else errorMsg)\<rparr>)) \<and>
         (\<forall>other. other \<noteq> jid \<longrightarrow>
            lookupJob (UpdateJobStatus js jid status filePath errorMsg) other =
              lookupJob js other) \<and>
         dom (jobs (UpdateJobStatus js jid status filePath errorMsg)) = dom (jobs js) \<and>
         JobStore_inv (UpdateJobStatus js jid status filePath errorMsg)"
  using assms
  by (simp add: UpdateJobStatus_absent UpdateJobStatus_present UpdateJobStatus_others
      UpdateJobStatus_jobs UpdateJobStatus_inv)

theorem UpdateJobStatus_contract_witness:
  "JobStore_inv (snd (CreateJob (snd (CreateJob NewJobStore ''j1'' 7)) ''j2'' 8)) \<and>
   UpdateJobStatus (snd (CreateJob (snd (CreateJob NewJobStore ''j1'' 7)) ''j2'' 8))
       ''nope'' JobStatusFailed [] ''boom'' =
     snd (CreateJob (snd (CreateJob NewJobStore ''j1'' 7)) ''j2'' 8) \<and>
   lookupJob (UpdateJobStatus
       (UpdateJobStatus (snd (CreateJob (snd (CreateJob NewJobStore ''j1'' 7)) ''j2'' 8))
          ''j1'' JobStatusCompleted ''out.csv'' [])
       ''j1'' JobStatusCompleted [] []) ''j1'' =
     Some \<lparr>ID = ''j1'', Status = JobStatusCompleted, CreatedAt = 7,
           FilePath = ''out.csv'', Error = []\<rparr> \<and>
   lookupJob (UpdateJobStatus (snd (CreateJob (snd (CreateJob NewJobStore ''j1'' 7)) ''j2'' 8))
       ''j1'' JobStatusFailed [] ''boom'') ''j2'' =
     Some \<lparr>ID = ''j2'', Status = JobStatusProcessing, CreatedAt = 8,
           FilePath = [], Error = []\<rparr>"
proof -
  let ?js = "snd (CreateJob (snd (CreateJob NewJobStore ''j1'' 7)) ''j2'' 8)"
  have inv: "JobStore_inv ?js"
    by (intro CreateJob_inv NewJobStore_inv)
  have l1: "lookupJob ?js ''j1'' = Some \<lparr>ID = ''j1'', Status = JobStatusProcessing,
      CreatedAt = 7, FilePath = [], Error = []\<rparr>"
    by (simp add: lookupJob_def GetJob_def CreateJob_def NewJobStore_def Let_def)
  have l2: "lookupJob ?js ''j2'' = Some \<lparr>ID = ''j2'', Status = JobStatusProcessing,
      CreatedAt = 8, FilePath = [], Error = []\<rparr>"
    by (simp add: lookupJob_def GetJob_def CreateJob_def NewJobStore_def Let_def)
  have g: "GetJob ?js ''nope'' = None"
    by (simp add: GetJob_def CreateJob_def NewJobStore_def Let_def)
  note c1 = UpdateJobStatus_contract [OF inv, of "''nope''" JobStatusFailed "[]" "''boom''"]
  note c2 = UpdateJobStatus_contract [OF inv, of "''j1''" JobStatusCompleted "''out.csv''" "[]"]
  note c3 = UpdateJobStatus_contract [OF inv, of "''j1''" JobStatusFailed "[]" "''boom''"]
  have inv2: "JobStore_inv (UpdateJobStatus ?js ''j1'' JobStatusCompleted ''out.csv'' [])"
    using c2 by blast
  note c4 = UpdateJobStatus_contract [OF inv2, of "''j1''" JobStatusCompleted "[]" "[]"]
  have s1: "UpdateJobStatus ?js ''nope'' JobStatusFailed [] ''boom'' = ?js"
    using c1 g by blast
  have s2: "lookupJob (UpdateJobStatus ?js ''j1'' JobStatusCompleted ''out.csv'' []) ''j1'' =
      Some \<lparr>ID = ''j1'', Status = JobStatusCompleted, CreatedAt = 7,
           FilePath = ''out.csv'', Error = []\<rparr>"
    using c2 l1 by simp
  have s3: "lookupJob (UpdateJobStatus
       (UpdateJobStatus ?js ''j1'' JobStatusCompleted ''out.csv'' [])
       ''j1'' JobStatusCompleted [] []) ''j1'' =
     Some \<lparr>ID = ''j1'', Status = JobStatusCompleted, CreatedAt = 7,
           FilePath = ''out.csv'', Error = []\<rparr>"
    using c4 s2 by simp
  have s4: "lookupJob (UpdateJobStatus ?js ''j1'' JobStatusFailed [] ''boom'') ''j2'' =
      Some \<lparr>ID = ''j2'', Status = JobStatusProcessing, CreatedAt = 8,
           FilePath = [], Error = []\<rparr>"
    using c3 l2 by simp
  show ?thesis using inv s1 s3 s4 by blast
qed

section \<open>Properties of the email validator\<close>

text \<open>
  The pattern in the specification's words: a local part and a host that consist of
  permitted characters and begin and end with a letter or digit, one \<^verbatim>\<open>@\<close> between
  them, and after the host a dot and a final label of two or more letters. \<open>emailShape\<close>
  is this reading, stated on the whole string; the lemmas below compare it with what
  \<open>MatchString emailRegex\<close> computes.
\<close>

lemma matchAt_Concat_iff:
  "matchAt b e (Concat r1 r2) w \<longleftrightarrow>
     (\<exists>u v. w = u @ v \<and> matchAt b (e \<and> v = []) r1 u \<and> matchAt (b \<and> u = []) e r2 v)"
proof
  assume "matchAt b e (Concat r1 r2) w"
  then have "\<exists>i\<in>set [0..<Suc (length w)]. matchAt b (e \<and> i = length w) r1 (take i w) \<and>
                  matchAt (b \<and> i = 0) e r2 (drop i w)"
    using matchAt.simps(4)[of b e r1 r2 w] unfolding list_ex_iff by blast
  then obtain i where mem: "i \<in> set [0..<Suc (length w)]" and
    i23: "matchAt b (e \<and> i = length w) r1 (take i w)" "matchAt (b \<and> i = 0) e r2 (drop i w)"
    by blast
  from mem have i: "i \<le> length w" by auto
  have "(i = length w) = (drop i w = [])" using i by auto
  moreover have "(i = 0) = (take i w = [])" using i by auto
  ultimately show "\<exists>u v. w = u @ v \<and> matchAt b (e \<and> v = []) r1 u \<and> matchAt (b \<and> u = []) e r2 v"
    using i23 by (intro exI[of _ "take i w"] exI[of _ "drop i w"]) simp
next
  assume "\<exists>u v. w = u @ v \<and> matchAt b (e \<and> v = []) r1 u \<and> matchAt (b \<and> u = []) e r2 v"
  then obtain u v where uv: "w = u @ v" "matchAt b (e \<and> v = []) r1 u" "matchAt (b \<and> u = []) e r2 v"
    by blast
  have "length u \<in> set [0..<Suc (length w)]" using uv(1) by simp
  moreover have "matchAt b (e \<and> length u = length w) r1 (take (length u) w)"
    using uv by simp
  moreover have "matchAt (b \<and> length u = 0) e r2 (drop (length u) w)"
    using uv by simp
  ultimately show "matchAt b e (Concat r1 r2) w"
    using matchAt.simps(4)[of b e r1 r2 w] unfolding list_ex_iff by blast
qed

lemma matchAt_CharClass_iff:
  "matchAt b e (CharClass rs) w \<longleftrightarrow> (\<exists>c. w = [c] \<and> inClass rs c)"
  by (auto simp: matchAt.simps split: list.splits)


lemma matchAt_Star_eq:
  "matchAt b e (Star r) w \<longleftrightarrow>
     (w = [] \<or> (\<exists>i\<in>set [0..<length w]. matchAt b (e \<and> Suc i = length w) r (take (Suc i) w) \<and>
                   matchAt False e (Star r) (drop (Suc i) w)))"
  using matchAt.simps(5)[of b e r w] unfolding list_ex_iff .

lemma matchAt_Star_unfold:
  "matchAt b e (Star r) w \<longleftrightarrow>
     (w = [] \<or> (\<exists>u v. w = u @ v \<and> u \<noteq> [] \<and> matchAt b (e \<and> v = []) r u \<and> matchAt False e (Star r) v))"
proof
  assume "matchAt b e (Star r) w"
  then have "w = [] \<or> (\<exists>i\<in>set [0..<length w]. matchAt b (e \<and> Suc i = length w) r (take (Suc i) w) \<and>
                   matchAt False e (Star r) (drop (Suc i) w))"
    using matchAt_Star_eq by blast
  then show "w = [] \<or> (\<exists>u v. w = u @ v \<and> u \<noteq> [] \<and> matchAt b (e \<and> v = []) r u \<and> matchAt False e (Star r) v)"
  proof
    assume "w = []" then show ?thesis by simp
  next
    assume "\<exists>i\<in>set [0..<length w]. matchAt b (e \<and> Suc i = length w) r (take (Suc i) w) \<and>
                   matchAt False e (Star r) (drop (Suc i) w)"
    then obtain i where mem: "i \<in> set [0..<length w]" and
      i23: "matchAt b (e \<and> Suc i = length w) r (take (Suc i) w)"
           "matchAt False e (Star r) (drop (Suc i) w)"
      by blast
    from mem have i: "i < length w" by auto
    have "(Suc i = length w) = (drop (Suc i) w = [])" using i by auto
    moreover have "take (Suc i) w \<noteq> []" using i by auto
    ultimately have "w = take (Suc i) w @ drop (Suc i) w \<and> take (Suc i) w \<noteq> [] \<and>
        matchAt b (e \<and> drop (Suc i) w = []) r (take (Suc i) w) \<and>
        matchAt False e (Star r) (drop (Suc i) w)"
      using i23 by simp
    then show ?thesis by blast
  qed
next
  assume "w = [] \<or> (\<exists>u v. w = u @ v \<and> u \<noteq> [] \<and> matchAt b (e \<and> v = []) r u \<and> matchAt False e (Star r) v)"
  then show "matchAt b e (Star r) w"
  proof
    assume "w = []" then show ?thesis using matchAt_Star_eq by blast
  next
    assume "\<exists>u v. w = u @ v \<and> u \<noteq> [] \<and> matchAt b (e \<and> v = []) r u \<and> matchAt False e (Star r) v"
    then obtain u v where uv: "w = u @ v" "u \<noteq> []" "matchAt b (e \<and> v = []) r u"
      "matchAt False e (Star r) v" by blast
    define i where "i = length u - 1"
    have si: "Suc i = length u" using uv(2) by (simp add: i_def)
    have "i \<in> set [0..<length w]" using uv(1) si by simp
    moreover have "matchAt b (e \<and> Suc i = length w) r (take (Suc i) w)"
      using uv si by simp
    moreover have "matchAt False e (Star r) (drop (Suc i) w)"
      using uv si by simp
    ultimately have "\<exists>i\<in>set [0..<length w]. matchAt b (e \<and> Suc i = length w) r (take (Suc i) w) \<and>
                   matchAt False e (Star r) (drop (Suc i) w)" by blast
    then show ?thesis using matchAt_Star_eq by blast
  qed
qed

lemma matchAt_Star_CharClass:
  "matchAt b e (Star (CharClass rs)) w \<longleftrightarrow> list_all (inClass rs) w"
proof (induction w arbitrary: b e)
  case Nil
  then show ?case by (subst matchAt_Star_unfold) simp
next
  case (Cons c w)
  have "matchAt b e (Star (CharClass rs)) (c # w) \<longleftrightarrow>
        (\<exists>u v. c # w = u @ v \<and> u \<noteq> [] \<and> matchAt b (e \<and> v = []) (CharClass rs) u \<and>
               matchAt False e (Star (CharClass rs)) v)"
    by (subst matchAt_Star_unfold) simp
  also have "\<dots> \<longleftrightarrow> (\<exists>u v. c # w = u @ v \<and> (\<exists>d. u = [d] \<and> inClass rs d) \<and>
               matchAt False e (Star (CharClass rs)) v)"
    unfolding matchAt_CharClass_iff by blast
  also have "\<dots> \<longleftrightarrow> inClass rs c \<and> matchAt False e (Star (CharClass rs)) w"
  proof
    assume "\<exists>u v. c # w = u @ v \<and> (\<exists>d. u = [d] \<and> inClass rs d) \<and>
               matchAt False e (Star (CharClass rs)) v"
    then obtain u v d where "c # w = u @ v" "u = [d]" "inClass rs d"
               "matchAt False e (Star (CharClass rs)) v" by blast
    then show "inClass rs c \<and> matchAt False e (Star (CharClass rs)) w" by simp
  next
    assume "inClass rs c \<and> matchAt False e (Star (CharClass rs)) w"
    then have "c # w = [c] @ w \<and> (\<exists>d. [c] = [d] \<and> inClass rs d) \<and>
               matchAt False e (Star (CharClass rs)) w" by simp
    then show "\<exists>u v. c # w = u @ v \<and> (\<exists>d. u = [d] \<and> inClass rs d) \<and>
               matchAt False e (Star (CharClass rs)) v" by blast
  qed
  finally have "matchAt b e (Star (CharClass rs)) (c # w) \<longleftrightarrow>
      inClass rs c \<and> matchAt False e (Star (CharClass rs)) w" .
  then show ?case by (simp add: Cons.IH)
qed


definition isLetter :: "char \<Rightarrow> bool" where
  "isLetter c \<longleftrightarrow> (of_char (CHR ''a'') \<le> (of_char c :: nat) \<and> (of_char c :: nat) \<le> of_char (CHR ''z'')) \<or>
                 (of_char (CHR ''A'') \<le> (of_char c :: nat) \<and> (of_char c :: nat) \<le> of_char (CHR ''Z''))"

definition isDigit :: "char \<Rightarrow> bool" where
  "isDigit c \<longleftrightarrow> of_char (CHR ''0'') \<le> (of_char c :: nat) \<and> (of_char c :: nat) \<le> of_char (CHR ''9'')"

definition isAlnum :: "char \<Rightarrow> bool" where
  "isAlnum c \<longleftrightarrow> isLetter c \<or> isDigit c"

definition isLocalChar :: "char \<Rightarrow> bool" where
  "isLocalChar c \<longleftrightarrow> isAlnum c \<or> c \<in> set ''._%+-''"

definition isDomainChar :: "char \<Rightarrow> bool" where
  "isDomainChar c \<longleftrightarrow> isAlnum c \<or> c \<in> set ''.-''"

definition partOK :: "(char \<Rightarrow> bool) \<Rightarrow> string \<Rightarrow> bool" where
  "partOK allowed w \<longleftrightarrow> w \<noteq> [] \<and> isAlnum (hd w) \<and> isAlnum (last w) \<and> list_all allowed w"

definition emailShape :: "string \<Rightarrow> bool" where
  "emailShape t \<longleftrightarrow>
     (\<exists>local host tld. t = local @ ''@'' @ host @ ''.'' @ tld \<and>
        partOK isLocalChar local \<and> partOK isDomainChar host \<and>
        2 \<le> length tld \<and> list_all isLetter tld)"

lemma inClass_alnum: "inClass [(CHR ''a'', CHR ''z''), (CHR ''A'', CHR ''Z''), (CHR ''0'', CHR ''9'')] = isAlnum"
  by (rule ext) (simp add: inClass_def isAlnum_def isLetter_def isDigit_def disj_ac)

lemma inClass_letter: "inClass [(CHR ''a'', CHR ''z''), (CHR ''A'', CHR ''Z'')] = isLetter"
  by (rule ext) (simp add: inClass_def isLetter_def)

lemma of_char_eq_iff': "(of_char c :: nat) = of_char d \<longleftrightarrow> c = d"
  by (metis char_of_char)

lemma range1: "((of_char d :: nat) \<le> of_char c \<and> (of_char c :: nat) \<le> of_char d) \<longleftrightarrow> c = d"
  using of_char_eq_iff'[of c d] by auto

lemma inClass_local: "inClass [(CHR ''a'', CHR ''z''), (CHR ''A'', CHR ''Z''), (CHR ''0'', CHR ''9''),
     (CHR ''.'', CHR ''.''), (CHR ''_'', CHR ''_''), (CHR ''%'', CHR ''%''),
     (CHR ''+'', CHR ''+''), (CHR ''-'', CHR ''-'')] = isLocalChar"
proof (rule ext)
  fix c
  have r: "\<And>d. ((of_char d :: nat) \<le> of_char c \<and> (of_char c :: nat) \<le> of_char d) \<longleftrightarrow> c = d"
    by (rule range1)
  show "inClass [(CHR ''a'', CHR ''z''), (CHR ''A'', CHR ''Z''), (CHR ''0'', CHR ''9''),
     (CHR ''.'', CHR ''.''), (CHR ''_'', CHR ''_''), (CHR ''%'', CHR ''%''),
     (CHR ''+'', CHR ''+''), (CHR ''-'', CHR ''-'')] c = isLocalChar c"
    unfolding inClass_def isLocalChar_def isAlnum_def isLetter_def isDigit_def
    by (simp only: list_ex_Nil_iff list_ex_Cons_iff prod.case r list.set insert_iff empty_iff) blast
qed

lemma inClass_domain: "inClass [(CHR ''a'', CHR ''z''), (CHR ''A'', CHR ''Z''), (CHR ''0'', CHR ''9''),
     (CHR ''.'', CHR ''.''), (CHR ''-'', CHR ''-'')] = isDomainChar"
proof (rule ext)
  fix c
  have r: "\<And>d. ((of_char d :: nat) \<le> of_char c \<and> (of_char c :: nat) \<le> of_char d) \<longleftrightarrow> c = d"
    by (rule range1)
  show "inClass [(CHR ''a'', CHR ''z''), (CHR ''A'', CHR ''Z''), (CHR ''0'', CHR ''9''),
     (CHR ''.'', CHR ''.''), (CHR ''-'', CHR ''-'')] c = isDomainChar c"
    unfolding inClass_def isDomainChar_def isAlnum_def isLetter_def isDigit_def
    by (simp only: list_ex_Nil_iff list_ex_Cons_iff prod.case r list.set insert_iff empty_iff) blast
qed

lemma m_alnum: "matchAt b e alnumClass w \<longleftrightarrow> (\<exists>c. w = [c] \<and> isAlnum c)"
  by (simp add: alnumClass_def matchAt_CharClass_iff inClass_alnum)

lemma m_letter: "matchAt b e letterClass w \<longleftrightarrow> (\<exists>c. w = [c] \<and> isLetter c)"
  by (simp add: letterClass_def matchAt_CharClass_iff inClass_letter)

lemma m_Literal: "matchAt b e (Literal c) w \<longleftrightarrow> w = [c]"
  by (simp add: matchAt.simps)

lemma m_BeginText: "matchAt b e BeginText w \<longleftrightarrow> w = [] \<and> b"
  by (simp add: matchAt.simps)

lemma m_EndText: "matchAt b e EndText w \<longleftrightarrow> w = [] \<and> e"
  by (simp add: matchAt.simps)

lemma m_Quest: "matchAt b e (Quest r) w \<longleftrightarrow> w = [] \<or> matchAt b e r w"
  by (simp add: matchAt.simps)

lemma m_optLocal:
  "matchAt b e (Quest (Concat (Star localClass) alnumClass)) w \<longleftrightarrow>
     (w = [] \<or> (\<exists>u c. w = u @ [c] \<and> list_all isLocalChar u \<and> isAlnum c))"
  by (simp add: m_Quest matchAt_Concat_iff m_alnum localClass_def matchAt_Star_CharClass inClass_local)
     blast

lemma m_optDomain:
  "matchAt b e (Quest (Concat (Star domainClass) alnumClass)) w \<longleftrightarrow>
     (w = [] \<or> (\<exists>u c. w = u @ [c] \<and> list_all isDomainChar u \<and> isAlnum c))"
  by (simp add: m_Quest matchAt_Concat_iff m_alnum domainClass_def matchAt_Star_CharClass inClass_domain)
     blast

lemma matchAt_Concat_char:
  assumes "\<And>b e u. matchAt b e r1 u \<longleftrightarrow> (\<exists>c. u = [c] \<and> P c)"
  shows "matchAt b e (Concat r1 r2) w \<longleftrightarrow> (\<exists>c v. w = c # v \<and> P c \<and> matchAt False e r2 v)"
proof
  assume "matchAt b e (Concat r1 r2) w"
  then obtain u v where uv: "w = u @ v" "matchAt b (e \<and> v = []) r1 u" "matchAt (b \<and> u = []) e r2 v"
    unfolding matchAt_Concat_iff by blast
  from uv(2) obtain c where c: "u = [c]" "P c" using assms by blast
  with uv show "\<exists>c v. w = c # v \<and> P c \<and> matchAt False e r2 v" by simp
next
  assume "\<exists>c v. w = c # v \<and> P c \<and> matchAt False e r2 v"
  then obtain c v where cv: "w = c # v" "P c" "matchAt False e r2 v" by blast
  have "matchAt b (e \<and> v = []) r1 [c]" using assms cv(2) by blast
  moreover have "matchAt (b \<and> [c] = []) e r2 v" using cv(3) by simp
  moreover have "w = [c] @ v" using cv(1) by simp
  ultimately show "matchAt b e (Concat r1 r2) w" unfolding matchAt_Concat_iff by blast
qed

lemma m_tld:
  "matchAt b e (Repeat 2 letterClass) w \<longleftrightarrow> 2 \<le> length w \<and> list_all isLetter w"
proof -
  have star: "\<And>b e v. matchAt b e (Star letterClass) v \<longleftrightarrow> list_all isLetter v"
    by (simp add: letterClass_def matchAt_Star_CharClass inClass_letter)
  have "matchAt b e (Repeat 2 letterClass) w \<longleftrightarrow>
        (\<exists>c v. w = c # v \<and> isLetter c \<and> (\<exists>d v'. v = d # v' \<and> isLetter d \<and> list_all isLetter v'))"
    by (simp add: numeral_2_eq_2 matchAt_Concat_char[where P = isLetter, OF m_letter] star)
  also have "\<dots> \<longleftrightarrow> 2 \<le> length w \<and> list_all isLetter w"
  proof (cases w)
    case Nil then show ?thesis by simp
  next
    case (Cons c w') then show ?thesis by (cases w') auto
  qed
  finally show ?thesis .
qed


lemma m_part:
  assumes Q: "\<And>b e w. matchAt b e Q w \<longleftrightarrow>
                (w = [] \<or> (\<exists>u c. w = u @ [c] \<and> list_all P u \<and> isAlnum c))"
    and sub: "\<And>c. isAlnum c \<Longrightarrow> P c"
  shows "matchAt b e (Concat alnumClass (Concat Q R)) w \<longleftrightarrow>
           (\<exists>h v. w = h @ v \<and> partOK P h \<and> matchAt False e R v)"
proof
  assume "matchAt b e (Concat alnumClass (Concat Q R)) w"
  then obtain c v1 where c: "w = c # v1" "isAlnum c" "matchAt False e (Concat Q R) v1"
    unfolding matchAt_Concat_char[where P = isAlnum, OF m_alnum] by blast
  from c(3) obtain u v where uv: "v1 = u @ v" "matchAt False (e \<and> v = []) Q u"
    "matchAt (False \<and> u = []) e R v"
    unfolding matchAt_Concat_iff by blast
  from uv(2) have u: "u = [] \<or> (\<exists>u' d. u = u' @ [d] \<and> list_all P u' \<and> isAlnum d)"
    using Q by blast
  have "partOK P (c # u)"
    using u c(2) sub by (auto simp: partOK_def)
  moreover have "w = (c # u) @ v" using c(1) uv(1) by simp
  moreover have "matchAt False e R v" using uv(3) by simp
  ultimately show "\<exists>h v. w = h @ v \<and> partOK P h \<and> matchAt False e R v" by blast
next
  assume "\<exists>h v. w = h @ v \<and> partOK P h \<and> matchAt False e R v"
  then obtain h v where hv: "w = h @ v" "partOK P h" "matchAt False e R v" by blast
  from hv(2) obtain c u where h: "h = c # u" by (cases h) (auto simp: partOK_def)
  have ca: "isAlnum c" using hv(2) h by (simp add: partOK_def)
  have "u = [] \<or> (\<exists>u' d. u = u' @ [d] \<and> list_all P u' \<and> isAlnum d)"
  proof (cases "u = []")
    case True then show ?thesis by simp
  next
    case False
    then have "u = butlast u @ [last u]" by simp
    moreover have "isAlnum (last u)" using hv(2) h False by (simp add: partOK_def)
    moreover have "list_all P (butlast u)"
      using hv(2) h by (auto simp: partOK_def list_all_iff dest: in_set_butlastD)
    ultimately show ?thesis by blast
  qed
  then have "matchAt False (e \<and> v = []) Q u" using Q by blast
  moreover have "matchAt (False \<and> u = []) e R v" using hv(3) by simp
  ultimately have "matchAt False e (Concat Q R) (u @ v)"
    unfolding matchAt_Concat_iff by blast
  then have "\<exists>c' v'. w = c' # v' \<and> isAlnum c' \<and> matchAt False e (Concat Q R) v'"
    using hv(1) h ca by simp
  then show "matchAt b e (Concat alnumClass (Concat Q R)) w"
    unfolding matchAt_Concat_char[where P = isAlnum, OF m_alnum] .
qed

lemma isAlnum_local: "isAlnum c \<Longrightarrow> isLocalChar c"
  by (simp add: isLocalChar_def)

lemma isAlnum_domain: "isAlnum c \<Longrightarrow> isDomainChar c"
  by (simp add: isDomainChar_def)

lemma m_tail:
  "matchAt b e (Concat (Literal (CHR ''.'')) (Concat (Repeat 2 letterClass) EndText)) w \<longleftrightarrow>
     e \<and> (\<exists>tld. w = CHR ''.'' # tld \<and> 2 \<le> length tld \<and> list_all isLetter tld)"
proof -
  have lit: "\<And>b e u. matchAt b e (Literal (CHR ''.'')) u \<longleftrightarrow> (\<exists>c. u = [c] \<and> c = CHR ''.'')"
    by (simp add: m_Literal)
  have t7: "\<And>b v. matchAt b e (Concat (Repeat 2 letterClass) EndText) v \<longleftrightarrow>
      e \<and> 2 \<le> length v \<and> list_all isLetter v"
    by (auto simp: matchAt_Concat_iff m_tld m_EndText)
  show ?thesis
    unfolding matchAt_Concat_char[where P = "\<lambda>c. c = CHR ''.''", OF lit] t7 by blast
qed

lemma m_Begin_Concat: "matchAt b e (Concat BeginText r) w \<longleftrightarrow> b \<and> matchAt b e r w"
  by (auto simp: matchAt_Concat_iff m_BeginText)

lemma matchAt_emailRegex:
  "matchAt b e emailRegex w \<longleftrightarrow> b \<and> e \<and> emailShape w"
proof -
  let ?T6 = "Concat (Literal (CHR ''.'')) (Concat (Repeat 2 letterClass) EndText)"
  let ?Q2 = "Quest (Concat (Star domainClass) alnumClass)"
  let ?T4 = "Concat alnumClass (Concat ?Q2 ?T6)"
  let ?T3 = "Concat (Literal (CHR ''@'')) ?T4"
  let ?Q1 = "Quest (Concat (Star localClass) alnumClass)"
  let ?T1 = "Concat alnumClass (Concat ?Q1 ?T3)"
  have lit: "\<And>b e u. matchAt b e (Literal (CHR ''@'')) u \<longleftrightarrow> (\<exists>c. u = [c] \<and> c = CHR ''@'')"
    by (simp add: m_Literal)
  have t4: "\<And>b v. matchAt b e ?T4 v \<longleftrightarrow>
      (\<exists>host v'. v = host @ v' \<and> partOK isDomainChar host \<and> matchAt False e ?T6 v')"
    by (rule m_part[OF m_optDomain isAlnum_domain])
  have t3: "\<And>b v. matchAt b e ?T3 v \<longleftrightarrow> (\<exists>v'. v = CHR ''@'' # v' \<and> matchAt False e ?T4 v')"
    unfolding matchAt_Concat_char[where P = "\<lambda>c. c = CHR ''@''", OF lit] by blast
  have t1: "\<And>b v. matchAt b e ?T1 v \<longleftrightarrow>
      (\<exists>loc v'. v = loc @ v' \<and> partOK isLocalChar loc \<and> matchAt False e ?T3 v')"
    by (rule m_part[OF m_optLocal isAlnum_local])
  have eq: "emailRegex = Concat BeginText ?T1"
    by (simp add: emailRegex_def)
  have "matchAt b e emailRegex w \<longleftrightarrow> b \<and> matchAt b e ?T1 w"
    by (subst eq) (rule m_Begin_Concat)
  also have "\<dots> \<longleftrightarrow> b \<and> e \<and> emailShape w"
    unfolding t1 t3 t4 m_tail emailShape_def by (simp add: conj_ac) blast
  finally show ?thesis .
qed

lemma MatchString_emailRegex: "MatchString emailRegex t \<longleftrightarrow> emailShape t"
proof -
  have "MatchString emailRegex t \<longleftrightarrow>
        (\<exists>i\<in>set [0..<Suc (length t)]. \<exists>j\<in>set [i..<Suc (length t)].
            i = 0 \<and> j = length t \<and> emailShape (take (j - i) (drop i t)))"
    unfolding MatchString_def list_ex_iff matchAt_emailRegex ..
  also have "\<dots> \<longleftrightarrow> emailShape t"
    by auto
  finally show ?thesis .
qed


definition asciiLower :: "char \<Rightarrow> char" where
  "asciiLower c =
     (if of_char (CHR ''A'') \<le> (of_char c :: nat) \<and> (of_char c :: nat) \<le> of_char (CHR ''Z'')
      then char_of ((of_char c :: nat) + 32) else c)"

lemma spaceWidth_take:
  assumes "spaceWidth s \<noteq> 0"
  shows "take (spaceWidth s) s \<in> set spaceRunes"
proof -
  from assms obtain p where p: "find (\<lambda>p. take (length p) s = p) spaceRunes = Some p"
    by (auto simp: spaceWidth_def split: option.splits)
  then have "p \<in> set spaceRunes" "take (length p) s = p"
    by (auto simp: find_Some_iff)
  with p show ?thesis by (simp add: spaceWidth_def)
qed

lemma spaceWidthLast_drop:
  assumes "spaceWidthLast s \<noteq> 0"
  shows "drop (length s - spaceWidthLast s) s \<in> set spaceRunes"
proof -
  from assms obtain p where
    p: "find (\<lambda>p. length p \<le> length s \<and> drop (length s - length p) s = p) spaceRunes = Some p"
    by (auto simp: spaceWidthLast_def split: option.splits)
  then have "p \<in> set spaceRunes" "drop (length s - length p) s = p"
    by (auto simp: find_Some_iff)
  with p show ?thesis by (simp add: spaceWidthLast_def)
qed

lemma at_not_space: "p \<in> set spaceRunes \<Longrightarrow> CHR ''@'' \<notin> set p"
  by (auto simp: spaceRunes_def)

lemma count_TrimLeft: "count_list (TrimLeft s) (CHR ''@'') = count_list s (CHR ''@'')"
proof (induction s rule: TrimLeft.induct)
  case (1 s)
  show ?case
  proof (cases "spaceWidth s = 0")
    case True
    then show ?thesis by (subst TrimLeft.simps) simp
  next
    case False
    have "CHR ''@'' \<notin> set (take (spaceWidth s) s)"
      using spaceWidth_take[OF False] at_not_space by blast
    then have z: "count_list (take (spaceWidth s) s) (CHR ''@'') = 0"
      by (simp add: count_list_0_iff)
    have "count_list s (CHR ''@'') =
          count_list (take (spaceWidth s) s @ drop (spaceWidth s) s) (CHR ''@'')" by simp
    also have "\<dots> = count_list (drop (spaceWidth s) s) (CHR ''@'')"
      unfolding count_list_append z by simp
    finally have "count_list s (CHR ''@'') = count_list (drop (spaceWidth s) s) (CHR ''@'')" .
    moreover have "TrimLeft s = TrimLeft (drop (spaceWidth s) s)"
      using False by (subst TrimLeft.simps) simp
    ultimately show ?thesis using "1.IH"[OF False] by simp
  qed
qed

lemma count_TrimRight: "count_list (TrimRight s) (CHR ''@'') = count_list s (CHR ''@'')"
proof (induction s rule: TrimRight.induct)
  case (1 s)
  show ?case
  proof (cases "spaceWidthLast s = 0")
    case True
    then show ?thesis by (subst TrimRight.simps) simp
  next
    case False
    let ?k = "length s - spaceWidthLast s"
    have "CHR ''@'' \<notin> set (drop ?k s)"
      using spaceWidthLast_drop[OF False] at_not_space by blast
    then have z: "count_list (drop ?k s) (CHR ''@'') = 0"
      by (simp add: count_list_0_iff)
    have "count_list s (CHR ''@'') = count_list (take ?k s @ drop ?k s) (CHR ''@'')" by simp
    also have "\<dots> = count_list (take ?k s) (CHR ''@'')"
      unfolding count_list_append z by simp
    finally have "count_list s (CHR ''@'') = count_list (take ?k s) (CHR ''@'')" .
    moreover have "TrimRight s = TrimRight (take ?k s)"
      using False by (subst TrimRight.simps) simp
    ultimately show ?thesis using "1.IH"[OF False] by simp
  qed
qed

lemma count_TrimSpace: "count_list (TrimSpace s) (CHR ''@'') = count_list s (CHR ''@'')"
  by (simp add: TrimSpace_def count_TrimLeft count_TrimRight)

lemma not_local_at: "\<not> isLocalChar (CHR ''@'')"
  by (simp add: isLocalChar_def isAlnum_def isLetter_def isDigit_def)

lemma not_domain_at: "\<not> isDomainChar (CHR ''@'')"
  by (simp add: isDomainChar_def isAlnum_def isLetter_def isDigit_def)

lemma not_letter_at: "\<not> isLetter (CHR ''@'')"
  by (simp add: isLetter_def)

lemma list_all_count0: "list_all P w \<Longrightarrow> \<not> P c \<Longrightarrow> count_list w c = 0"
  by (auto simp: count_list_0_iff list_all_iff)

lemma emailShape_one_at:
  assumes "emailShape t"
  shows "count_list t (CHR ''@'') = 1"
proof -
  from assms obtain loc host tld where d: "t = loc @ ''@'' @ host @ ''.'' @ tld"
    "list_all isLocalChar loc" "list_all isDomainChar host" "list_all isLetter tld"
    by (auto simp: emailShape_def partOK_def)
  have "count_list loc (CHR ''@'') = 0" "count_list host (CHR ''@'') = 0"
    "count_list tld (CHR ''@'') = 0"
    using d(2-4) not_local_at not_domain_at not_letter_at by (auto intro: list_all_count0)
  then show ?thesis unfolding d(1) by (simp add: count_list_append)
qed

lemma emailShape_tld:
  assumes "emailShape t"
  shows "\<exists>body tld. t = body @ ''.'' @ tld \<and> 2 \<le> length tld \<and> list_all isLetter tld"
proof -
  from assms obtain loc host tld where d: "t = loc @ ''@'' @ host @ ''.'' @ tld"
    "2 \<le> length tld" "list_all isLetter tld"
    by (auto simp: emailShape_def)
  then have "t = (loc @ ''@'' @ host) @ ''.'' @ tld" by simp
  with d(2,3) show ?thesis by blast
qed

lemma emailShape_example: "emailShape ''a..b@example.com''"
  unfolding emailShape_def
  by (intro exI[of _ "''a..b''"] exI[of _ "''example''"] exI[of _ "''com''"])
     (simp add: partOK_def isLocalChar_def isDomainChar_def isAlnum_def isLetter_def isDigit_def)

lemma TrimSpace_example: "TrimSpace ''a..b@example.com'' = ''a..b@example.com''"
  by (simp add: TrimSpace_def TrimLeft.simps TrimRight.simps spaceWidth_def spaceWidthLast_def spaceRunes_def)


definition sameFold :: "char \<Rightarrow> char \<Rightarrow> bool" where
  "sameFold c d \<longleftrightarrow> asciiLower c = asciiLower d"

lemma of_char_asciiLower:
  "(of_char (asciiLower c) :: nat) =
     (if 65 \<le> (of_char c :: nat) \<and> (of_char c :: nat) \<le> 90 then of_char c + 32 else of_char c)"
proof -
  have "(of_char c :: nat) < 256" by (rule nat_of_char_less_256)
  then show ?thesis by (simp add: asciiLower_def)
qed

lemma sameFold_code:
  assumes "sameFold c d"
  shows "(if 65 \<le> (of_char c :: nat) \<and> (of_char c :: nat) \<le> 90 then of_char c + 32 else of_char c) =
         (if 65 \<le> (of_char d :: nat) \<and> (of_char d :: nat) \<le> 90 then of_char d + 32 else (of_char d :: nat))"
proof -
  have "(of_char (asciiLower c) :: nat) = of_char (asciiLower d)"
    using assms by (simp add: sameFold_def)
  then show ?thesis unfolding of_char_asciiLower .
qed

lemma sameFold_letter: "sameFold c d \<Longrightarrow> isLetter c = isLetter d"
  using sameFold_code[of c d] by (auto simp: isLetter_def split: if_splits)

lemma sameFold_digit: "sameFold c d \<Longrightarrow> isDigit c = isDigit d"
  using sameFold_code[of c d] by (auto simp: isDigit_def split: if_splits)

lemma sameFold_other:
  assumes "sameFold c d" and "\<not> isLetter x"
  shows "c = x \<longleftrightarrow> d = x"
proof -
  have e: "\<And>a b. (of_char a :: nat) = of_char b \<longleftrightarrow> a = b" by (rule of_char_eq_iff')
  have "(of_char c :: nat) = of_char x \<longleftrightarrow> (of_char d :: nat) = of_char x"
    using sameFold_code[OF assms(1)] assms(2)
    by (auto simp: isLetter_def split: if_splits)
  then show ?thesis unfolding e .
qed

lemma sameFold_alnum: "sameFold c d \<Longrightarrow> isAlnum c = isAlnum d"
  by (simp add: isAlnum_def sameFold_letter sameFold_digit)

lemma sameFold_local: "sameFold c d \<Longrightarrow> isLocalChar c = isLocalChar d"
  using sameFold_other[of c d]
  by (simp add: isLocalChar_def sameFold_alnum isLetter_def)

lemma sameFold_domain: "sameFold c d \<Longrightarrow> isDomainChar c = isDomainChar d"
  using sameFold_other[of c d]
  by (simp add: isDomainChar_def sameFold_alnum isLetter_def)

lemma sameFold_map: "map asciiLower t = map asciiLower t' \<longleftrightarrow> list_all2 sameFold t t'"
proof (induction t arbitrary: t')
  case Nil
  then show ?case by auto
next
  case (Cons c t)
  then show ?case by (cases t') (auto simp: sameFold_def)
qed

lemma list_all_transfer:
  assumes "list_all2 sameFold w w'" and "\<And>c d. sameFold c d \<Longrightarrow> P c = P d" and "list_all P w"
  shows "list_all P w'"
  using assms by (fastforce simp: list_all2_conv_all_nth list_all_length)

lemma partOK_transfer:
  assumes r: "list_all2 sameFold w w'" and p: "\<And>c d. sameFold c d \<Longrightarrow> P c = P d"
    and ok: "partOK P w"
  shows "partOK P w'"
proof -
  have len: "length w = length w'" using r by (rule list_all2_lengthD)
  have ne: "w \<noteq> []" "w' \<noteq> []" using ok len by (auto simp: partOK_def)
  have nth: "\<And>i. i < length w \<Longrightarrow> sameFold (w ! i) (w' ! i)"
    using r by (simp add: list_all2_conv_all_nth)
  have "sameFold (hd w) (hd w')"
    using nth[of 0] ne by (simp add: hd_conv_nth)
  moreover have "sameFold (last w) (last w')"
    using nth[of "length w - 1"] ne len by (simp add: last_conv_nth)
  moreover have "list_all P w'"
    using list_all_transfer[OF r p] ok by (simp add: partOK_def)
  ultimately show ?thesis
    using ok ne by (simp add: partOK_def sameFold_alnum)
qed

lemma emailShape_transfer:
  assumes r: "list_all2 sameFold t t'" and sh: "emailShape t"
  shows "emailShape t'"
proof -
  from sh obtain loc host tld where d: "t = loc @ ''@'' @ host @ ''.'' @ tld"
    "partOK isLocalChar loc" "partOK isDomainChar host" "2 \<le> length tld" "list_all isLetter tld"
    by (auto simp: emailShape_def)
  from r obtain loc' r1 where 1: "t' = loc' @ r1" "list_all2 sameFold loc loc'"
    "list_all2 sameFold (''@'' @ host @ ''.'' @ tld) r1"
    unfolding d(1) list_all2_append1 by blast
  from 1(3) obtain a r2 where 2: "r1 = a # r2" "sameFold (CHR ''@'') a"
    "list_all2 sameFold (host @ ''.'' @ tld) r2"
    by (auto simp: list_all2_Cons1)
  from 2(3) obtain host' r3 where 3: "r2 = host' @ r3" "list_all2 sameFold host host'"
    "list_all2 sameFold (''.'' @ tld) r3"
    unfolding list_all2_append1 by blast
  from 3(3) obtain b tld' where 4: "r3 = b # tld'" "sameFold (CHR ''.'') b"
    "list_all2 sameFold tld tld'"
    by (auto simp: list_all2_Cons1)
  have a: "a = CHR ''@''"
    using sameFold_other[OF 2(2), of "CHR ''@''"] by (simp add: isLetter_def)
  have b: "b = CHR ''.''"
    using sameFold_other[OF 4(2), of "CHR ''.''"] by (simp add: isLetter_def)
  have "t' = loc' @ ''@'' @ host' @ ''.'' @ tld'"
    using 1(1) 2(1) 3(1) 4(1) a b by simp
  moreover have "partOK isLocalChar loc'"
    by (rule partOK_transfer[OF 1(2) sameFold_local d(2)])
  moreover have "partOK isDomainChar host'"
    by (rule partOK_transfer[OF 3(2) sameFold_domain d(3)])
  moreover have "2 \<le> length tld'"
    using d(4) list_all2_lengthD[OF 4(3)] by simp
  moreover have "list_all isLetter tld'"
    by (rule list_all_transfer[OF 4(3) sameFold_letter d(5)])
  ultimately show ?thesis unfolding emailShape_def by blast
qed

lemma sameFold_sym: "list_all2 sameFold t t' \<Longrightarrow> list_all2 sameFold t' t"
  by (auto simp: list_all2_conv_all_nth sameFold_def)

lemma emailShape_fold:
  "map asciiLower t = map asciiLower t' \<Longrightarrow> emailShape t = emailShape t'"
  using emailShape_transfer sameFold_sym unfolding sameFold_map by blast

lemma sameFold_iff:
  "sameFold c d \<longleftrightarrow>
     (if 65 \<le> (of_char c :: nat) \<and> (of_char c :: nat) \<le> 90 then of_char c + 32 else of_char c) =
     (if 65 \<le> (of_char d :: nat) \<and> (of_char d :: nat) \<le> 90 then of_char d + 32 else (of_char d :: nat))"
proof -
  have "sameFold c d \<longleftrightarrow> (of_char (asciiLower c) :: nat) = of_char (asciiLower d)"
    unfolding sameFold_def using of_char_eq_iff'[of "asciiLower c" "asciiLower d"] by simp
  then show ?thesis unfolding of_char_asciiLower .
qed

text \<open>
  Claim C2. \<open>IsValidEmail\<close> is false when the argument is empty after trimming; otherwise
  it is true exactly when the entire trimmed string has the shape of the pattern (the
  pattern's match is the shape of the whole string, and two strings that differ only in
  the case of ASCII letters match alike). \<^verbatim>\<open>a..b@example.com\<close> is accepted; a string
  whose number of \<^verbatim>\<open>@\<close> is not one is rejected; an accepted string ends in a dot
  followed by a final label of two or more letters.
\<close>

theorem IsValidEmail_pattern:
  "(TrimSpace s = [] \<longrightarrow> \<not> IsValidEmail s) \<and>
   (TrimSpace s \<noteq> [] \<longrightarrow> (IsValidEmail s \<longleftrightarrow> emailShape (TrimSpace s))) \<and>
   (MatchString emailRegex t \<longleftrightarrow> emailShape t) \<and>
   (map asciiLower t = map asciiLower t' \<longrightarrow>
      MatchString emailRegex t = MatchString emailRegex t') \<and>
   IsValidEmail ''a..b@example.com'' \<and>
   (count_list s (CHR ''@'') \<noteq> 1 \<longrightarrow> \<not> IsValidEmail s) \<and>
   (IsValidEmail s \<longrightarrow>
      (\<exists>body tld. TrimSpace s = body @ ''.'' @ tld \<and> 2 \<le> length tld \<and> list_all isLetter tld))"
proof -
  have valid: "IsValidEmail s \<longleftrightarrow> TrimSpace s \<noteq> [] \<and> emailShape (TrimSpace s)" for s
    by (simp add: IsValidEmail_def Let_def MatchString_emailRegex)
  have 1: "TrimSpace s = [] \<longrightarrow> \<not> IsValidEmail s"
    by (simp add: valid)
  have 2: "TrimSpace s \<noteq> [] \<longrightarrow> (IsValidEmail s \<longleftrightarrow> emailShape (TrimSpace s))"
    by (simp add: valid)
  have 3: "MatchString emailRegex t \<longleftrightarrow> emailShape t"
    by (rule MatchString_emailRegex)
  have 4: "map asciiLower t = map asciiLower t' \<longrightarrow>
      MatchString emailRegex t = MatchString emailRegex t'"
    using emailShape_fold[of t t'] by (simp add: MatchString_emailRegex)
  have 5: "IsValidEmail ''a..b@example.com''"
    by (simp add: valid TrimSpace_example emailShape_example)
  have 6: "count_list s (CHR ''@'') \<noteq> 1 \<longrightarrow> \<not> IsValidEmail s"
    using emailShape_one_at[of "TrimSpace s"] by (auto simp: valid count_TrimSpace)
  have 7: "IsValidEmail s \<longrightarrow>
      (\<exists>body tld. TrimSpace s = body @ ''.'' @ tld \<and> 2 \<le> length tld \<and> list_all isLetter tld)"
    using emailShape_tld[of "TrimSpace s"] by (simp add: valid)
  from 1 2 3 4 5 6 7 show ?thesis by blast
qed

theorem IsValidEmail_pattern_witness:
  "IsValidEmail ''  Test@Example.Com  '' \<and> \<not> IsValidEmail ''test@@example.com'' \<and>
   \<not> IsValidEmail ''   '' \<and> MatchString emailRegex ''TEST@EXAMPLE.COM''"
proof -
  have t1: "TrimSpace ''  Test@Example.Com  '' = ''Test@Example.Com''"
    by (simp add: TrimSpace_def TrimLeft.simps TrimRight.simps spaceWidth_def
        spaceWidthLast_def spaceRunes_def)
  have t3: "TrimSpace ''   '' = []"
    by (simp add: TrimSpace_def TrimLeft.simps TrimRight.simps spaceWidth_def
        spaceWidthLast_def spaceRunes_def)
  have sh: "emailShape ''Test@Example.Com''"
    unfolding emailShape_def
    by (intro exI[of _ "''Test''"] exI[of _ "''Example''"] exI[of _ "''Com''"])
       (simp add: partOK_def isLocalChar_def isDomainChar_def isAlnum_def isLetter_def
          isDigit_def)
  have lower: "map asciiLower ''Test@Example.Com'' = map asciiLower ''TEST@EXAMPLE.COM''"
    unfolding sameFold_map by (simp add: sameFold_iff)
  have cnt: "count_list ''test@@example.com'' (CHR ''@'') \<noteq> 1"
    by simp
  note a = IsValidEmail_pattern [of "''  Test@Example.Com  ''" "''Test@Example.Com''"
      "''TEST@EXAMPLE.COM''"]
  note b = IsValidEmail_pattern [of "''test@@example.com''" "[]" "[]"]
  note c = IsValidEmail_pattern [of "''   ''" "[]" "[]"]
  have a2: "TrimSpace ''  Test@Example.Com  '' \<noteq> [] \<longrightarrow>
      (IsValidEmail ''  Test@Example.Com  '' \<longleftrightarrow> emailShape (TrimSpace ''  Test@Example.Com  ''))"
    using a by (rule conjunct1[OF conjunct2])
  have a3: "MatchString emailRegex ''Test@Example.Com'' \<longleftrightarrow> emailShape ''Test@Example.Com''"
    using a by (rule conjunct1[OF conjunct2[OF conjunct2]])
  have a4: "map asciiLower ''Test@Example.Com'' = map asciiLower ''TEST@EXAMPLE.COM'' \<longrightarrow>
      MatchString emailRegex ''Test@Example.Com'' = MatchString emailRegex ''TEST@EXAMPLE.COM''"
    using a by (rule conjunct1[OF conjunct2[OF conjunct2[OF conjunct2]]])
  have b6: "count_list ''test@@example.com'' (CHR ''@'') \<noteq> 1 \<longrightarrow>
      \<not> IsValidEmail ''test@@example.com''"
    using b by (rule conjunct1[OF conjunct2[OF conjunct2[OF conjunct2[OF conjunct2[OF conjunct2]]]]])
  have c1: "TrimSpace ''   '' = [] \<longrightarrow> \<not> IsValidEmail ''   ''"
    using c by (rule conjunct1)
  have "IsValidEmail ''  Test@Example.Com  ''" using a2 sh unfolding t1 by simp
  moreover have "\<not> IsValidEmail ''test@@example.com''" using b6 cnt by (rule mp)
  moreover have "\<not> IsValidEmail ''   ''" using c1 t3 by (rule mp)
  moreover have "MatchString emailRegex ''TEST@EXAMPLE.COM''" using a3 a4 sh lower by blast
  ultimately show ?thesis by blast
qed

section \<open>Properties of CSV processing\<close>

text \<open>
  \<open>yields reader rows\<close>: the successive calls of \<open>Read\<close> return exactly the records
  \<open>rows\<close>, each without error, and then \<^verbatim>\<open>io.EOF\<close>.
\<close>

fun yields :: "Reader \<Rightarrow> string list list \<Rightarrow> bool" where
  "yields r [] = (snd (fst (Read r)) = Some EOF)"
| "yields r (row # rows) =
     (case Read r of
        ((rcd, None), r') \<Rightarrow> rcd = row \<and> yields r' rows
      | ((rcd, Some e), r') \<Rightarrow> False)"

text \<open>
  The output that the specification describes for a sequence of parsed rows: the rows
  that are not empty, in order; the first with the field \<^verbatim>\<open>has_email\<close> appended,
  every later one with \<^verbatim>\<open>true\<close> appended when some field is an email and
  \<^verbatim>\<open>false\<close> otherwise.
\<close>

definition hasEmailText :: "string list \<Rightarrow> string" where
  "hasEmailText row = (if \<exists>field\<in>set row. IsValidEmail field then ''true'' else ''false'')"

definition specOutput :: "string list list \<Rightarrow> string list list" where
  "specOutput rows =
     (case filter (\<lambda>row. \<not> emptyRow row) rows of
        [] \<Rightarrow> []
      | header # dataRows \<Rightarrow>
          (header @ [''has_email'']) # map (\<lambda>row. row @ [hasEmailText row]) dataRows)"

lemma HasValidEmail_iff: "HasValidEmail row \<longleftrightarrow> (\<exists>field\<in>set row. IsValidEmail field)"
  by (induction row) auto

text \<open>What the loop writes from row number \<open>n\<close> on, row by row.\<close>

fun outRows :: "nat \<Rightarrow> string list list \<Rightarrow> string list list" where
  "outRows n [] = []"
| "outRows n (row # rows) =
     (if emptyRow row then outRows n rows
      else (if n = 0 then row @ [''has_email'']
            else row @ [if HasValidEmail row then ''true'' else ''false'']) # outRows (Suc n) rows)"

lemma outRows_Suc:
  "outRows (Suc n) rows = map (\<lambda>row. row @ [hasEmailText row]) (filter (\<lambda>row. \<not> emptyRow row) rows)"
  by (induction rows arbitrary: n) (auto simp: hasEmailText_def HasValidEmail_iff)

lemma outRows_0: "outRows 0 rows = specOutput rows"
  by (induction rows) (auto simp: specOutput_def outRows_Suc)

lemma loop_EOF:
  assumes "Read r = ((rcd, Some EOF), r')"
  shows "ProcessCSV_loop wok r n acc = (None, acc)"
  using assms by (subst ProcessCSV_loop.simps) simp

lemma loop_ParseError:
  assumes "Read r = ((rcd, Some (ParseError e)), r')"
  shows "ProcessCSV_loop wok r n acc = (Some (ReadFailed n e), acc)"
  using assms by (subst ProcessCSV_loop.simps) simp

lemma loop_skip:
  assumes "Read r = ((rcd, None), r')" and "emptyRow rcd"
  shows "ProcessCSV_loop wok r n acc = ProcessCSV_loop wok r' n acc"
  using assms by (subst ProcessCSV_loop.simps) simp

lemma loop_write:
  assumes "Read r = ((rcd, None), r')" and "\<not> emptyRow rcd" and "wok n"
  shows "ProcessCSV_loop wok r n acc =
           ProcessCSV_loop wok r' (Suc n)
             (acc @ [if n = 0 then rcd @ [''has_email'']
                     else rcd @ [if HasValidEmail rcd then ''true'' else ''false'']])"
  using assms by (subst ProcessCSV_loop.simps) (simp add: Let_def)

lemma loop_write_fails:
  assumes "Read r = ((rcd, None), r')" and "\<not> emptyRow rcd" and "\<not> wok n"
  shows "ProcessCSV_loop wok r n acc = (Some (WriteFailed n), acc)"
  using assms by (subst ProcessCSV_loop.simps) (simp add: Let_def)

lemma yields_Nil_Read: "yields r [] \<Longrightarrow> \<exists>rcd r'. Read r = ((rcd, Some EOF), r')"
  by (cases "Read r") auto

lemma yields_Cons_Read:
  "yields r (row # rows) \<Longrightarrow> \<exists>r'. Read r = ((row, None), r') \<and> yields r' rows"
  by (cases "Read r") (auto split: option.splits)

lemma loop_yields:
  assumes "\<And>k. wok k"
  shows "yields r rows \<Longrightarrow> ProcessCSV_loop wok r n acc = (None, acc @ outRows n rows)"
proof (induction rows arbitrary: r n acc)
  case Nil
  then obtain rcd r' where "Read r = ((rcd, Some EOF), r')"
    using yields_Nil_Read by blast
  then show ?case by (simp add: loop_EOF)
next
  case (Cons row rows)
  then obtain r' where rd: "Read r = ((row, None), r')" and rest: "yields r' rows"
    using yields_Cons_Read by blast
  show ?case
  proof (cases "emptyRow row")
    case True
    then show ?thesis using loop_skip[OF rd True] Cons.IH[OF rest] by simp
  next
    case False
    then show ?thesis
      using loop_write[where wok=wok and n=n, OF rd False assms] Cons.IH[OF rest] by simp
  qed
qed



lemma IsValidEmail_iff_shape: "IsValidEmail s \<longleftrightarrow> TrimSpace s \<noteq> [] \<and> emailShape (TrimSpace s)"
  by (simp add: IsValidEmail_def Let_def MatchString_emailRegex)

lemma IsValidEmail_needs_at: "count_list s (CHR ''@'') \<noteq> 1 \<Longrightarrow> \<not> IsValidEmail s"
  using emailShape_one_at[of "TrimSpace s"] by (auto simp: IsValidEmail_iff_shape count_TrimSpace)



text \<open>
  Claim C5, at the input \<^verbatim>\<open>name,email\n   \nJohn,john@example.com\n\<close>: the second
  line has one field of white space only. The reader returns it together with
  \<^verbatim>\<open>ErrFieldCount\<close> (the header has two fields), the error test of the loop comes
  before the test for empty rows, and \<open>ProcessCSV\<close> fails at row 1 instead of dropping
  the line.
\<close>

theorem ProcessCSV_whitespace_row_fails:
  "ProcessCSV_loop (\<lambda>n. True) (NewReader ''name,email\<newline>   \<newline>John,john@example.com\<newline>'') 0 [] =
     (Some (ReadFailed 1 ErrFieldCount), [[''name'', ''email'', ''has_email'']])"
  by code_simp

lemma ProcessCSV_run:
  assumes "files fs inP = Some input" and "inP \<noteq> outP" and "canCreate fs outP"
  shows "ProcessCSV fs inP outP =
           (fst (ProcessCSV_loop (writeReturns fs outP) (NewReader input) 0 []),
            fs\<lparr>files := (files fs)(outP \<mapsto>
                 stored fs outP (snd (ProcessCSV_loop (writeReturns fs outP) (NewReader input) 0 [])))\<rparr>)"
  using assms by (simp add: ProcessCSV_def Let_def split_beta)

lemma writeReturns_accepting: "\<forall>n. canWrite fs path n \<Longrightarrow> writeReturns fs path = (\<lambda>n. True)"
  by (rule ext) (simp add: writeReturns_def)

lemma stored_accepting:
  "\<forall>n. canWrite fs path n \<Longrightarrow> stored fs path written = concat (map Writer_Write written)"
  by (simp add: stored_def list_all_iff)

lemma ProcessCSV_accepting:
  assumes "files fs inP = Some input" and "inP \<noteq> outP" and "canCreate fs outP"
    and "\<forall>n. canWrite fs outP n"
  shows "ProcessCSV fs inP outP =
           (fst (ProcessCSV_loop (\<lambda>n. True) (NewReader input) 0 []),
            fs\<lparr>files := (files fs)(outP \<mapsto>
                 concat (map Writer_Write (snd (ProcessCSV_loop (\<lambda>n. True) (NewReader input) 0 []))))\<rparr>)"
  unfolding ProcessCSV_run[OF assms(1-3)] writeReturns_accepting[OF assms(4)]
    stored_accepting[OF assms(4)] ..

lemma ProcessCSV_writes:
  assumes "files fs inputPath = Some input" and "inputPath \<noteq> outputPath"
    and "canCreate fs outputPath" and "\<forall>n. canWrite fs outputPath n"
    and "yields (NewReader input) rows"
  shows "ProcessCSV fs inputPath outputPath =
           (None, fs\<lparr>files := (files fs)(outputPath \<mapsto> concat (map Writer_Write (specOutput rows)))\<rparr>)"
proof -
  have "ProcessCSV_loop (\<lambda>n. True) (NewReader input) 0 [] = (None, [] @ outRows 0 rows)"
    using assms(5) by (intro loop_yields) auto
  then have "ProcessCSV_loop (\<lambda>n. True) (NewReader input) 0 [] = (None, specOutput rows)"
    by (simp add: outRows_0)
  then show ?thesis using ProcessCSV_accepting[OF assms(1-4)] by simp
qed

text \<open>
  A line of white space in a file of one column is a row of one blank field: the reader
  returns it without error and the loop drops it.
\<close>

lemma ProcessCSV_drops_blank_row:
  "\<exists>fs'. ProcessCSV \<lparr>files = [''in.csv'' \<mapsto> ''name\<newline>   \<newline>Ann\<newline>''], canCreate = (\<lambda>p. True),
                      canWrite = (\<lambda>p n. True), flushesAt = (\<lambda>p n. False),
                      truncated = (\<lambda>p. [])\<rparr> ''in.csv'' ''out.csv'' = (None, fs') \<and>
         files fs' ''out.csv'' = Some ''name,has_email\<newline>Ann,false\<newline>''"
proof -
  let ?input = "''name\<newline>   \<newline>Ann\<newline>''"
  let ?rows = "[[''name''], [''   ''], [''Ann'']]"
  let ?fs = "\<lparr>files = [''in.csv'' \<mapsto> ?input], canCreate = (\<lambda>p. True),
                      canWrite = (\<lambda>p n. True), flushesAt = (\<lambda>p n. False),
                      truncated = (\<lambda>p. [])\<rparr>"
  have y: "yields (NewReader ?input) ?rows"
    by code_simp
  have t: "TrimSpace ''   '' = []" "TrimSpace ''name'' \<noteq> []" "TrimSpace ''Ann'' \<noteq> []"
    by code_simp+
  have so: "specOutput ?rows = [[''name'', ''has_email''], [''Ann'', ''false'']]"
    unfolding outRows_0[symmetric] by (simp add: emptyRow_def t IsValidEmail_needs_at)
  have bytes: "concat (map Writer_Write [[''name'', ''has_email''], [''Ann'', ''false'']]) =
      ''name,has_email\<newline>Ann,false\<newline>''"
    by code_simp
  have "ProcessCSV ?fs ''in.csv'' ''out.csv'' =
      (None, ?fs\<lparr>files := (files ?fs)(''out.csv'' \<mapsto> ''name,has_email\<newline>Ann,false\<newline>'')\<rparr>)"
    using ProcessCSV_writes[of ?fs "''in.csv''" ?input "''out.csv''" ?rows] y
    unfolding so bytes by simp
  then show ?thesis by simp
qed

lemma Read_empty: "Read (NewReader []) = (([], Some EOF), NewReader [])"
  by (simp add: Read_def NewReader_def readLines_def)

lemma ProcessCSV_empty_input:
  assumes "files fs inP = Some []" and "canCreate fs outP"
  shows "ProcessCSV fs inP outP = (None, fs\<lparr>files := (files fs)(outP \<mapsto> [])\<rparr>)"
  using assms by (simp add: ProcessCSV_def Let_def loop_EOF[OF Read_empty] stored_def)

text \<open>
  Claim C6. An input file of zero bytes gives an output file of zero bytes and no error
  (no header is made up). An input that the reader parses to a single, non-empty header
  row gives an output of one line: that row with \<^verbatim>\<open>has_email\<close> appended.
\<close>

theorem ProcessCSV_boundaries:
  "(files fs inputPath = Some [] \<and> canCreate fs outputPath \<longrightarrow>
      (\<exists>fs'. ProcessCSV fs inputPath outputPath = (None, fs') \<and> files fs' outputPath = Some [])) \<and>
   (files fs inputPath = Some input \<and> inputPath \<noteq> outputPath \<and> canCreate fs outputPath \<and>
    canWrite fs outputPath 0 \<and> yields (NewReader input) [header] \<and> \<not> emptyRow header \<longrightarrow>
      (\<exists>fs'. ProcessCSV fs inputPath outputPath = (None, fs') \<and>
             files fs' outputPath = Some (Writer_Write (header @ [''has_email'']))))"
proof (intro conjI impI)
  assume "files fs inputPath = Some [] \<and> canCreate fs outputPath"
  then show "\<exists>fs'. ProcessCSV fs inputPath outputPath = (None, fs') \<and> files fs' outputPath = Some []"
    by (simp add: ProcessCSV_empty_input)
next
  assume a: "files fs inputPath = Some input \<and> inputPath \<noteq> outputPath \<and> canCreate fs outputPath \<and>
    canWrite fs outputPath 0 \<and> yields (NewReader input) [header] \<and> \<not> emptyRow header"
  then obtain r' where rd: "Read (NewReader input) = ((header, None), r')" and y: "yields r' []"
    using yields_Cons_Read by blast
  from y obtain rcd r'' where rd2: "Read r' = ((rcd, Some EOF), r'')"
    using yields_Nil_Read by blast
  have c0: "canWrite fs outputPath 0" and ne: "\<not> emptyRow header" using a by simp_all
  have w0: "writeReturns fs outputPath 0" using c0 by (simp add: writeReturns_def)
  have l: "ProcessCSV_loop (writeReturns fs outputPath) (NewReader input) 0 [] =
          (None, [header @ [''has_email'']])"
    using loop_write[where wok="writeReturns fs outputPath" and n=0, OF rd ne w0]
    by (simp add: loop_EOF[OF rd2])
  have st: "stored fs outputPath [header @ [''has_email'']] = Writer_Write (header @ [''has_email''])"
    using c0 by (simp add: stored_def)
  have "ProcessCSV fs inputPath outputPath =
      (None, fs\<lparr>files := (files fs)(outputPath \<mapsto> Writer_Write (header @ [''has_email'']))\<rparr>)"
    using a by (simp add: ProcessCSV_run l st)
  then show "\<exists>fs'. ProcessCSV fs inputPath outputPath = (None, fs') \<and>
             files fs' outputPath = Some (Writer_Write (header @ [''has_email'']))"
    by simp
qed

theorem ProcessCSV_boundaries_witness:
  "(\<exists>fs'. ProcessCSV \<lparr>files = [''in.csv'' \<mapsto> []], canCreate = (\<lambda>p. True), canWrite = (\<lambda>p n. True),
                       flushesAt = (\<lambda>p n. False), truncated = (\<lambda>p. [])\<rparr>
             ''in.csv'' ''out.csv'' = (None, fs') \<and> files fs' ''out.csv'' = Some []) \<and>
   (\<exists>fs'. ProcessCSV \<lparr>files = [''in.csv'' \<mapsto> ''name,email,phone,company''],
                       canCreate = (\<lambda>p. True), canWrite = (\<lambda>p n. True),
                       flushesAt = (\<lambda>p n. False), truncated = (\<lambda>p. [])\<rparr>
             ''in.csv'' ''out.csv'' = (None, fs') \<and>
          files fs' ''out.csv'' = Some ''name,email,phone,company,has_email\<newline>'')"
proof -
  let ?fs0 = "\<lparr>files = [''in.csv'' \<mapsto> []], canCreate = (\<lambda>p. True), canWrite = (\<lambda>p n. True),
                       flushesAt = (\<lambda>p n. False), truncated = (\<lambda>p. [])\<rparr>"
  let ?fs1 = "\<lparr>files = [''in.csv'' \<mapsto> ''name,email,phone,company''],
                       canCreate = (\<lambda>p. True), canWrite = (\<lambda>p n. True),
                       flushesAt = (\<lambda>p n. False), truncated = (\<lambda>p. [])\<rparr>"
  have y: "yields (NewReader ''name,email,phone,company'') [[''name'', ''email'', ''phone'', ''company'']]"
    by code_simp
  have ne: "\<not> emptyRow [''name'', ''email'', ''phone'', ''company'']"
    by (simp add: emptyRow_def)
  have w: "Writer_Write ([''name'', ''email'', ''phone'', ''company''] @ [''has_email'']) =
      ''name,email,phone,company,has_email\<newline>''"
    by code_simp
  note b0 = ProcessCSV_boundaries[of ?fs0 "''in.csv''" "''out.csv''" "[]" "[]", THEN conjunct1]
  note b1 = ProcessCSV_boundaries[of ?fs1 "''in.csv''" "''out.csv''" "''name,email,phone,company''"
      "[''name'', ''email'', ''phone'', ''company'']", THEN conjunct2]
  have "\<exists>fs'. ProcessCSV ?fs0 ''in.csv'' ''out.csv'' = (None, fs') \<and> files fs' ''out.csv'' = Some []"
    using b0 by simp
  moreover have "\<exists>fs'. ProcessCSV ?fs1 ''in.csv'' ''out.csv'' = (None, fs') \<and>
          files fs' ''out.csv'' = Some ''name,email,phone,company,has_email\<newline>''"
    using b1 y ne unfolding w by simp
  ultimately show ?thesis by blast
qed

lemma loop_example:
  assumes "yields (NewReader input) [[''a'', ''b''], [''1'', ''2'']]" and "\<And>k. wok k"
  shows "ProcessCSV_loop wok (NewReader input) 0 [] =
           (None, [[''a'', ''b'', ''has_email''], [''1'', ''2'', ''false'']])"
proof -
  have "\<not> IsValidEmail ''1''" "\<not> IsValidEmail ''2''"
    by (simp_all add: IsValidEmail_needs_at)
  then have "outRows 0 [[''a'', ''b''], [''1'', ''2'']] =
      [[''a'', ''b'', ''has_email''], [''1'', ''2'', ''false'']]"
    by (simp add: emptyRow_def)
  then show ?thesis using loop_yields[where wok=wok, OF assms(2) assms(1), of 0 "[]"] by simp
qed

lemma yields_plain: "yields (NewReader ''a,b\<newline>1,2\<newline>'') [[''a'', ''b''], [''1'', ''2'']]"
  by code_simp

lemma write_example_append:
  "Writer_Write [''a'', ''b'', ''has_email''] @ Writer_Write [''1'', ''2'', ''false''] =
     ''a,b,has_email\<newline>1,2,false\<newline>''"
  by code_simp

text \<open>
  The case that the hypotheses on the destination exclude: the output is shorter than
  the buffer, the file refuses the bytes when the deferred \<^verbatim>\<open>Flush\<close> sends them, and
  \<open>ProcessCSV\<close> returns no error with an empty file.
\<close>

lemma ProcessCSV_unreported_refusal:
  "\<exists>fs'. ProcessCSV \<lparr>files = [''in.csv'' \<mapsto> ''a,b\<newline>1,2\<newline>''], canCreate = (\<lambda>p. True),
                      canWrite = (\<lambda>p n. False), flushesAt = (\<lambda>p n. False),
                      truncated = (\<lambda>p. [])\<rparr> ''in.csv'' ''out.csv'' = (None, fs') \<and>
         files fs' ''out.csv'' = Some []"
proof -
  let ?fs = "\<lparr>files = [''in.csv'' \<mapsto> ''a,b\<newline>1,2\<newline>''], canCreate = (\<lambda>p. True),
                      canWrite = (\<lambda>p n. False), flushesAt = (\<lambda>p n. False),
                      truncated = (\<lambda>p. [])\<rparr>"
  have w: "writeReturns ?fs ''out.csv'' k" for k by (simp add: writeReturns_def)
  have l: "ProcessCSV_loop (writeReturns ?fs ''out.csv'') (NewReader ''a,b\<newline>1,2\<newline>'') 0 [] =
      (None, [[''a'', ''b'', ''has_email''], [''1'', ''2'', ''false'']])"
    using loop_example[OF yields_plain w] .
  have "ProcessCSV ?fs ''in.csv'' ''out.csv'' =
      (None, ?fs\<lparr>files := (files ?fs)(''out.csv'' \<mapsto> [])\<rparr>)"
    using ProcessCSV_run[of ?fs "''in.csv''" "''a,b\<newline>1,2\<newline>''" "''out.csv''"]
    unfolding l by (simp add: stored_def)
  then show ?thesis by simp
qed

text \<open>
  Claim C7. \<open>ProcessCSV\<close> is run twice on the same input file, first to one destination
  and then, from the file system that the first run left, to another; neither
  destination is the input file and both accept every write. Then the two runs return
  the same result, and afterwards the two destinations hold the same bytes.
\<close>

theorem ProcessCSV_deterministic:
  assumes "files fs inputPath = Some input"
    and "inputPath \<noteq> out1" and "inputPath \<noteq> out2" and "out1 \<noteq> out2"
    and "canCreate fs out1" and "canCreate fs out2"
    and "\<forall>n. canWrite fs out1 n" and "\<forall>n. canWrite fs out2 n"
  shows "\<exists>err fs1 fs2 bytes.
           ProcessCSV fs inputPath out1 = (err, fs1) \<and>
           ProcessCSV fs1 inputPath out2 = (err, fs2) \<and>
           files fs1 out1 = Some bytes \<and>
           files fs2 out1 = Some bytes \<and> files fs2 out2 = Some bytes \<and>
           files fs2 inputPath = Some input"
proof -
  let ?L = "ProcessCSV_loop (\<lambda>n. True) (NewReader input) 0 []"
  let ?bytes = "concat (map Writer_Write (snd ?L))"
  let ?fs1 = "fs\<lparr>files := (files fs)(out1 \<mapsto> ?bytes)\<rparr>"
  let ?fs2 = "?fs1\<lparr>files := (files ?fs1)(out2 \<mapsto> ?bytes)\<rparr>"
  have r1: "ProcessCSV fs inputPath out1 = (fst ?L, ?fs1)"
    by (rule ProcessCSV_accepting[OF assms(1,2,5,7)])
  have i1: "files ?fs1 inputPath = Some input" using assms(1,2) by simp
  have c1: "canCreate ?fs1 out2" using assms(6) by simp
  have w1: "\<forall>n. canWrite ?fs1 out2 n" using assms(8) by simp
  have r2: "ProcessCSV ?fs1 inputPath out2 = (fst ?L, ?fs2)"
    by (rule ProcessCSV_accepting[OF i1 assms(3) c1 w1])
  have "files ?fs1 out1 = Some ?bytes" by simp
  moreover have "files ?fs2 out1 = Some ?bytes" using assms(4) by simp
  moreover have "files ?fs2 out2 = Some ?bytes" by simp
  moreover have "files ?fs2 inputPath = Some input" using assms(1,2,3) by simp
  ultimately show ?thesis using r1 r2 by blast
qed

theorem ProcessCSV_deterministic_witness:
  "\<exists>fs1 fs2.
     ProcessCSV \<lparr>files = [''in.csv'' \<mapsto> ''a,b\<newline>1,2\<newline>''], canCreate = (\<lambda>p. True),
                 canWrite = (\<lambda>p n. True), flushesAt = (\<lambda>p n. False),
                 truncated = (\<lambda>p. [])\<rparr> ''in.csv'' ''out1.csv'' = (None, fs1) \<and>
     ProcessCSV fs1 ''in.csv'' ''out2.csv'' = (None, fs2) \<and>
     files fs2 ''out1.csv'' = Some ''a,b,has_email\<newline>1,2,false\<newline>'' \<and>
     files fs2 ''out2.csv'' = Some ''a,b,has_email\<newline>1,2,false\<newline>''"
proof -
  let ?out = "''a,b,has_email\<newline>1,2,false\<newline>''"
  let ?fs0 = "\<lparr>files = [''in.csv'' \<mapsto> ''a,b\<newline>1,2\<newline>''], canCreate = (\<lambda>p. True),
                 canWrite = (\<lambda>p n. True), flushesAt = (\<lambda>p n. False),
                 truncated = (\<lambda>p. [])\<rparr>"
  have l: "ProcessCSV_loop (\<lambda>n. True) (NewReader ''a,b\<newline>1,2\<newline>'') 0 [] =
      (None, [[''a'', ''b'', ''has_email''], [''1'', ''2'', ''false'']])"
    using loop_example[OF yields_plain] by simp
  have first: "ProcessCSV ?fs0 ''in.csv'' ''out1.csv'' =
      (None, ?fs0\<lparr>files := (files ?fs0)(''out1.csv'' \<mapsto> ?out)\<rparr>)"
    using ProcessCSV_accepting[of ?fs0 "''in.csv''" "''a,b\<newline>1,2\<newline>''" "''out1.csv''"]
    unfolding l by (simp add: write_example_append)
  from ProcessCSV_deterministic[of ?fs0 "''in.csv''" "''a,b\<newline>1,2\<newline>''" "''out1.csv''" "''out2.csv''"]
  obtain err fs1 fs2 bytes where d:
    "ProcessCSV ?fs0 ''in.csv'' ''out1.csv'' = (err, fs1)"
    "ProcessCSV fs1 ''in.csv'' ''out2.csv'' = (err, fs2)"
    "files fs1 ''out1.csv'' = Some bytes"
    "files fs2 ''out1.csv'' = Some bytes" "files fs2 ''out2.csv'' = Some bytes"
    by auto
  from d(1) first have e: "err = None" and f: "fs1 = ?fs0\<lparr>files := (files ?fs0)(''out1.csv'' \<mapsto> ?out)\<rparr>"
    by simp_all
  from d(3) f have "bytes = ?out" by simp
  with d e show ?thesis by blast
qed

section \<open>Properties of the job lifecycle\<close>

text \<open>
  The invariant of a job record: output location and error message are never both set,
  and both are empty while the status is \<^verbatim>\<open>processing\<close>.
\<close>

definition jobInvariant :: "ProcessingJob \<Rightarrow> bool" where
  "jobInvariant job \<longleftrightarrow>
     \<not> (FilePath job \<noteq> [] \<and> Error job \<noteq> []) \<and>
     (Status job = JobStatusProcessing \<longrightarrow> FilePath job = [] \<and> Error job = [])"

lemma lookup_CreateJob:
  "lookupJob (snd (CreateJob js jobID now)) jobID =
     Some \<lparr>ID = jobID, Status = JobStatusProcessing, CreatedAt = now, FilePath = [], Error = []\<rparr>"
  by (simp add: lookupJob_def GetJob_def CreateJob_def Let_def)

lemma GetProcessedFilePath_nonempty: "GetProcessedFilePath jobID \<noteq> []"
  by (simp add: GetProcessedFilePath_def filepath_Join_def)

lemma processFileAsync_cases:
  "(\<exists>msg. msg \<noteq> [] \<and> fst (processFileAsync showError js fs jobID fileData filename) =
      UpdateJobStatus js jobID JobStatusFailed [] msg) \<or>
   fst (processFileAsync showError js fs jobID fileData filename) =
      UpdateJobStatus js jobID JobStatusCompleted (GetProcessedFilePath jobID) []"
  by (auto simp: processFileAsync_def Let_def split: prod.splits sum.splits option.splits)

text \<open>
  Claim C4. The record that \<open>CreateJob\<close> registers is in state \<^verbatim>\<open>processing\<close> with
  empty output location and error message. After the one update that the background
  worker makes, whatever the outcome of saving and processing the file, the record is
  either \<^verbatim>\<open>completed\<close> with a non-empty location and an empty error or \<^verbatim>\<open>failed\<close>
  with an empty location and a non-empty error. Both records satisfy the invariant.
\<close>

theorem job_lifecycle_invariant:
  "(\<exists>job. lookupJob (snd (CreateJob js jobID now)) jobID = Some job \<and>
          Status job = JobStatusProcessing \<and> FilePath job = [] \<and> Error job = [] \<and>
          jobInvariant job) \<and>
   (\<exists>job. lookupJob (fst (processFileAsync showError (snd (CreateJob js jobID now)) fs
                            jobID fileData filename)) jobID = Some job \<and>
          jobInvariant job \<and>
          (Status job = JobStatusCompleted \<and> FilePath job \<noteq> [] \<and> Error job = [] \<or>
           Status job = JobStatusFailed \<and> FilePath job = [] \<and> Error job \<noteq> []))"
proof -
  let ?js1 = "snd (CreateJob js jobID now)"
  let ?new = "\<lparr>ID = jobID, Status = JobStatusProcessing, CreatedAt = now, FilePath = [], Error = []\<rparr>"
  have l1: "lookupJob ?js1 jobID = Some ?new" by (rule lookup_CreateJob)
  have first: "\<exists>job. lookupJob ?js1 jobID = Some job \<and>
          Status job = JobStatusProcessing \<and> FilePath job = [] \<and> Error job = [] \<and> jobInvariant job"
    using l1 by (simp add: jobInvariant_def)
  have ne: "JobStatusCompleted \<noteq> JobStatusProcessing" "JobStatusFailed \<noteq> JobStatusProcessing"
    by (simp_all add: JobStatusCompleted_def JobStatusProcessing_def JobStatusFailed_def)
  from processFileAsync_cases[of showError ?js1 fs jobID fileData filename]
  have second: "\<exists>job. lookupJob (fst (processFileAsync showError ?js1 fs jobID fileData filename)) jobID = Some job \<and>
          jobInvariant job \<and>
          (Status job = JobStatusCompleted \<and> FilePath job \<noteq> [] \<and> Error job = [] \<or>
           Status job = JobStatusFailed \<and> FilePath job = [] \<and> Error job \<noteq> [])"
  proof
    assume "\<exists>msg. msg \<noteq> [] \<and> fst (processFileAsync showError ?js1 fs jobID fileData filename) =
      UpdateJobStatus ?js1 jobID JobStatusFailed [] msg"
    then obtain msg where m: "msg \<noteq> []"
      "fst (processFileAsync showError ?js1 fs jobID fileData filename) =
         UpdateJobStatus ?js1 jobID JobStatusFailed [] msg" by blast
    show ?thesis
      unfolding m(2) UpdateJobStatus_present[OF l1]
      using m(1) ne by (simp add: jobInvariant_def)
  next
    assume c: "fst (processFileAsync showError ?js1 fs jobID fileData filename) =
      UpdateJobStatus ?js1 jobID JobStatusCompleted (GetProcessedFilePath jobID) []"
    show ?thesis
      unfolding c UpdateJobStatus_present[OF l1]
      using GetProcessedFilePath_nonempty[of jobID] ne by (simp add: jobInvariant_def)
  qed
  from first second show ?thesis by blast
qed

theorem job_lifecycle_invariant_witness:
  "lookupJob (snd (CreateJob NewJobStore ''j1'' 5)) ''j1'' =
     Some \<lparr>ID = ''j1'', Status = JobStatusProcessing, CreatedAt = 5, FilePath = [], Error = []\<rparr> \<and>
   (\<exists>job. lookupJob (fst (processFileAsync (\<lambda>e. ''error'') (snd (CreateJob NewJobStore ''j1'' 5))
        \<lparr>files = Map.empty, canCreate = (\<lambda>p. False), canWrite = (\<lambda>p n. True),
        flushesAt = (\<lambda>p n. False), truncated = (\<lambda>p. [])\<rparr>
        ''j1'' ''a,b'' ''x.csv'')) ''j1'' = Some job \<and> jobInvariant job \<and>
        Status job = JobStatusFailed \<and> FilePath job = [] \<and> Error job \<noteq> [])"
proof -
  let ?fs = "\<lparr>files = Map.empty, canCreate = (\<lambda>p. False), canWrite = (\<lambda>p n. True),
        flushesAt = (\<lambda>p n. False), truncated = (\<lambda>p. [])\<rparr>"
  note t = job_lifecycle_invariant[of NewJobStore "''j1''" 5 "\<lambda>e. ''error''" ?fs "''a,b''" "''x.csv''"]
  have l: "lookupJob (snd (CreateJob NewJobStore ''j1'' 5)) ''j1'' =
     Some \<lparr>ID = ''j1'', Status = JobStatusProcessing, CreatedAt = 5, FilePath = [], Error = []\<rparr>"
    by (rule lookup_CreateJob)
  have f: "fst (processFileAsync (\<lambda>e. ''error'') (snd (CreateJob NewJobStore ''j1'' 5)) ?fs
        ''j1'' ''a,b'' ''x.csv'') =
      UpdateJobStatus (snd (CreateJob NewJobStore ''j1'' 5)) ''j1'' JobStatusFailed []
        ''Failed to save uploaded file: error''"
    by (simp add: processFileAsync_def SaveUploadedFile_def Let_def)
  have ne: "JobStatusFailed \<noteq> JobStatusCompleted"
    by (simp add: JobStatusCompleted_def JobStatusFailed_def)
  from t obtain job where j: "lookupJob (fst (processFileAsync (\<lambda>e. ''error'')
        (snd (CreateJob NewJobStore ''j1'' 5)) ?fs ''j1'' ''a,b'' ''x.csv'')) ''j1'' = Some job"
      "jobInvariant job"
      "Status job = JobStatusCompleted \<and> FilePath job \<noteq> [] \<and> Error job = [] \<or>
       Status job = JobStatusFailed \<and> FilePath job = [] \<and> Error job \<noteq> []"
    by blast
  have "Status job = JobStatusFailed"
    using j(1) unfolding f UpdateJobStatus_present[OF l] by auto
  with j ne have "lookupJob (fst (processFileAsync (\<lambda>e. ''error'')
        (snd (CreateJob NewJobStore ''j1'' 5)) ?fs ''j1'' ''a,b'' ''x.csv'')) ''j1'' = Some job \<and>
      jobInvariant job \<and> Status job = JobStatusFailed \<and> FilePath job = [] \<and> Error job \<noteq> []"
    by auto
  then show ?thesis using l by blast
qed


section \<open>The field count of the rows\<close>

text \<open>
  The same reader with the check of the field count switched off (a negative
  \<^verbatim>\<open>FieldsPerRecord\<close>): what it yields is what the input parses to.
\<close>

definition noFieldCheck :: "Reader \<Rightarrow> Reader" where
  "noFieldCheck r = r\<lparr>FieldsPerRecord := -1\<rparr>"

lemma parse_grows:
  "case parseField line rest acc of (e, dst, rest') \<Rightarrow> e = None \<longrightarrow> length acc < length dst"
  "case parseQuoted line rest acc buf of (e, dst, rest') \<Rightarrow> e = None \<longrightarrow> length acc < length dst"
proof (induction line rest acc and line rest acc buf rule: parseField_parseQuoted.induct)
  case (1 line rest acc)
  show ?case
    using 1 apply (subst parseField.simps)
    apply (auto simp: Let_def split: prod.splits)
    by (meson Suc_lessD)
next
  case (2 line rest acc buf)
  show ?case
  proof (cases "dropWhile (\<lambda>c. c \<noteq> quoteChar) line \<noteq> []")
    case True
    with 2(1,2) show ?thesis
      apply (subst parseQuoted.simps)
      apply (auto simp: Let_def split: prod.splits)
      by (meson Suc_lessD)+
  next
    case False
    show ?thesis
    proof (cases rest)
      case Nil
      with False 2(3) show ?thesis
        by (subst parseQuoted.simps) (simp add: Let_def)
    next
      case (Cons l ls)
      with False 2(4)[of "dropWhile (\<lambda>c. c \<noteq> quoteChar) line" l ls] show ?thesis
        by (subst parseQuoted.simps) (auto simp: Let_def)
    qed
  qed
qed


lemma Read_cases:
  "(dropWhile isEmptyLine (pending r) = [] \<and> Read r = (([], Some EOF), r\<lparr>pending := []\<rparr>)) \<or>
   (\<exists>line rest e dst rest'. dropWhile isEmptyLine (pending r) = line # rest \<and>
      parseField line rest [] = (e, dst, rest') \<and>
      Read r = ((dst,
                 if 0 < FieldsPerRecord r \<and> int (length dst) \<noteq> FieldsPerRecord r \<and> e = None
                 then Some (ParseError ErrFieldCount) else map_option ParseError e),
                r\<lparr>pending := rest',
                  FieldsPerRecord := (if FieldsPerRecord r = 0 then int (length dst)
                                      else FieldsPerRecord r)\<rparr>))"
proof (cases "dropWhile isEmptyLine (pending r)")
  case Nil
  show ?thesis unfolding Read_def Nil by simp
next
  case (Cons line rest)
  obtain e dst rest' where p: "parseField line rest [] = (e, dst, rest')"
    by (cases "parseField line rest []") auto
  have "Read r = ((dst,
                 if 0 < FieldsPerRecord r \<and> int (length dst) \<noteq> FieldsPerRecord r \<and> e = None
                 then Some (ParseError ErrFieldCount) else map_option ParseError e),
                r\<lparr>pending := rest',
                  FieldsPerRecord := (if FieldsPerRecord r = 0 then int (length dst)
                                      else FieldsPerRecord r)\<rparr>)"
    using Cons p by (simp add: Read_def)
  with Cons p show ?thesis by blast
qed

lemma Read_noFieldCheck_row:
  assumes "Read (noFieldCheck r) = ((row, None), r')" and "0 \<le> FieldsPerRecord r"
  shows "\<exists>r2. Read r = ((row, if 0 < FieldsPerRecord r \<and> int (length row) \<noteq> FieldsPerRecord r
                               then Some (ParseError ErrFieldCount) else None), r2) \<and>
              noFieldCheck r2 = r' \<and>
              FieldsPerRecord r2 = (if FieldsPerRecord r = 0 then int (length row) else FieldsPerRecord r) \<and>
              0 < length row"
proof -
  have pend: "pending (noFieldCheck r) = pending r" by (simp add: noFieldCheck_def)
  from Read_cases[of "noFieldCheck r"] assms(1) obtain line rest e dst rest' where
    c: "dropWhile isEmptyLine (pending r) = line # rest" "parseField line rest [] = (e, dst, rest')"
    and rd: "Read (noFieldCheck r) = ((dst, map_option ParseError e),
                (noFieldCheck r)\<lparr>pending := rest'\<rparr>)"
    unfolding pend by (auto simp: noFieldCheck_def)
  from rd assms(1) have e: "e = None" and d: "dst = row" and r': "r' = (noFieldCheck r)\<lparr>pending := rest'\<rparr>"
    by auto
  have pos: "0 < length row"
    using parse_grows(1)[where line=line and rest=rest and acc="[]"] c(2) e d by simp
  from Read_cases[of r] c have "Read r = ((dst,
                 if 0 < FieldsPerRecord r \<and> int (length dst) \<noteq> FieldsPerRecord r \<and> e = None
                 then Some (ParseError ErrFieldCount) else map_option ParseError e),
                r\<lparr>pending := rest',
                  FieldsPerRecord := (if FieldsPerRecord r = 0 then int (length dst)
                                      else FieldsPerRecord r)\<rparr>)"
    by auto
  then show ?thesis using e d r' pos by (auto simp: noFieldCheck_def)
qed

lemma loop_ragged:
  assumes wok: "\<And>k. wok k"
  shows "yields (noFieldCheck r) (mid @ bad # post) \<Longrightarrow> 0 < FieldsPerRecord r \<Longrightarrow>
         \<forall>row\<in>set mid. int (length row) = FieldsPerRecord r \<Longrightarrow>
         int (length bad) \<noteq> FieldsPerRecord r \<Longrightarrow>
         ProcessCSV_loop wok r n acc =
           (Some (ReadFailed (n + length (filter (\<lambda>row. \<not> emptyRow row) mid)) ErrFieldCount),
            acc @ outRows n mid)"
proof (induction mid arbitrary: r n acc)
  case Nil
  then obtain r' where rd: "Read (noFieldCheck r) = ((bad, None), r')"
    using yields_Cons_Read[of "noFieldCheck r" bad post] by auto
  from Read_noFieldCheck_row[OF rd] Nil.prems obtain r2 where
    "Read r = ((bad, Some (ParseError ErrFieldCount)), r2)" by auto
  then show ?case by (simp add: loop_ParseError)
next
  case (Cons row mid)
  from Cons.prems(1) obtain r' where rd: "Read (noFieldCheck r) = ((row, None), r')"
    and rest: "yields r' (mid @ bad # post)"
    using yields_Cons_Read[of "noFieldCheck r" row "mid @ bad # post"] by auto
  from Read_noFieldCheck_row[OF rd] Cons.prems(2,3) obtain r2 where
    r2: "Read r = ((row, None), r2)" "noFieldCheck r2 = r'" "FieldsPerRecord r2 = FieldsPerRecord r"
    by auto
  have ih: "ProcessCSV_loop wok r2 k a =
           (Some (ReadFailed (k + length (filter (\<lambda>row. \<not> emptyRow row) mid)) ErrFieldCount),
            a @ outRows k mid)" for k a
    using Cons.IH[of r2 k a] rest r2(2,3) Cons.prems(2,3,4) by simp
  show ?case
  proof (cases "emptyRow row")
    case True
    then show ?thesis using loop_skip[OF r2(1) True] ih by simp
  next
    case False
    then show ?thesis
      using loop_write[where wok=wok and n=n, OF r2(1) False wok] ih by simp
  qed
qed

lemma loop_ragged_any:
  "yields (noFieldCheck r) (mid @ bad # post) \<Longrightarrow> 0 < FieldsPerRecord r \<Longrightarrow>
   \<forall>row\<in>set mid. int (length row) = FieldsPerRecord r \<Longrightarrow>
   int (length bad) \<noteq> FieldsPerRecord r \<Longrightarrow>
   fst (ProcessCSV_loop wok r n acc) \<noteq> None"
proof (induction mid arbitrary: r n acc)
  case Nil
  then obtain r' where rd: "Read (noFieldCheck r) = ((bad, None), r')"
    using yields_Cons_Read[of "noFieldCheck r" bad post] by auto
  from Read_noFieldCheck_row[OF rd] Nil.prems obtain r2 where
    "Read r = ((bad, Some (ParseError ErrFieldCount)), r2)" by auto
  then show ?case by (simp add: loop_ParseError)
next
  case (Cons row mid)
  from Cons.prems(1) obtain r' where rd: "Read (noFieldCheck r) = ((row, None), r')"
    and rest: "yields r' (mid @ bad # post)"
    using yields_Cons_Read[of "noFieldCheck r" row "mid @ bad # post"] by auto
  from Read_noFieldCheck_row[OF rd] Cons.prems(2,3) obtain r2 where
    r2: "Read r = ((row, None), r2)" "noFieldCheck r2 = r'" "FieldsPerRecord r2 = FieldsPerRecord r"
    by auto
  have ih: "fst (ProcessCSV_loop wok r2 k a) \<noteq> None" for k a
    using Cons.IH[of r2 k a] rest r2(2,3) Cons.prems(2,3,4) by simp
  show ?case
  proof (cases "emptyRow row")
    case True
    then show ?thesis using loop_skip[OF r2(1) True] ih by simp
  next
    case False
    show ?thesis
    proof (cases "wok n")
      case True
      then show ?thesis
        using loop_write[where wok=wok and n=n, OF r2(1) False True] ih by simp
    next
      case f: False
      then show ?thesis
        using loop_write_fails[where wok=wok and n=n, OF r2(1) False f] by simp
    qed
  qed
qed


lemma paths_differ:
  "filepath_Join ''uploads'' (''upload_'' @ jobID @ ''_'' @ filename) \<noteq> GetProcessedFilePath jobID"
  by (simp add: filepath_Join_def GetProcessedFilePath_def)

lemma processFileAsync_fails:
  assumes "\<And>wok. fst (ProcessCSV_loop wok (NewReader fileData) 0 []) \<noteq> None"
  shows "\<exists>msg. msg \<noteq> [] \<and> fst (processFileAsync showError js fs jobID fileData filename) =
           UpdateJobStatus js jobID JobStatusFailed [] msg"
proof -
  let ?up = "filepath_Join ''uploads'' (''upload_'' @ jobID @ ''_'' @ filename)"
  let ?fs' = "fs\<lparr>files := (files fs)(?up \<mapsto> fileData)\<rparr>"
  show ?thesis
  proof (cases "canCreate fs ''uploads'' \<and> canCreate fs ?up")
    case False
    then have "fst (processFileAsync showError js fs jobID fileData filename) =
        UpdateJobStatus js jobID JobStatusFailed []
          (''Failed to save uploaded file: '' @ showError (if canCreate fs ''uploads'' then WriteFileFailed else MkdirFailed))"
      by (auto simp: processFileAsync_def SaveUploadedFile_def Let_def)
    then show ?thesis by (intro exI[of _ "''Failed to save uploaded file: '' @
        showError (if canCreate fs ''uploads'' then WriteFileFailed else MkdirFailed)"]) simp
  next
    case True
    then have save: "SaveUploadedFile fs fileData (''upload_'' @ jobID @ ''_'' @ filename) = (Inr ?up, ?fs')"
      by (simp add: SaveUploadedFile_def Let_def)
    have "fst (ProcessCSV ?fs' ?up (GetProcessedFilePath jobID)) \<noteq> None"
    proof (cases "canCreate ?fs' (GetProcessedFilePath jobID)")
      case False
      then show ?thesis by (simp add: ProcessCSV_def)
    next
      case c: True
      have "files ?fs' ?up = Some fileData" by simp
      from ProcessCSV_run[OF this paths_differ c] assms show ?thesis by simp
    qed
    then obtain err fs'' where pr: "ProcessCSV ?fs' ?up (GetProcessedFilePath jobID) = (Some err, fs'')"
      by (cases "ProcessCSV ?fs' ?up (GetProcessedFilePath jobID)") auto
    have "fst (processFileAsync showError js fs jobID fileData filename) =
        UpdateJobStatus js jobID JobStatusFailed [] (''Failed to process CSV: '' @ showError err)"
      unfolding processFileAsync_def save using pr by (simp add: Let_def)
    then show ?thesis by (intro exI[of _ "''Failed to process CSV: '' @ showError err"]) simp
  qed
qed

text \<open>
  Claim C9. Let the input parse (with no check of the field count) to the rows
  \<open>first\<close>, then rows \<open>mid\<close> with as many fields as \<open>first\<close>, then a row \<open>bad\<close> with a
  different number of fields. Then \<open>ProcessCSV\<close> fails: with every write accepted, the
  loop returns the read error \<^verbatim>\<open>ErrFieldCount\<close> at the row number of \<open>bad\<close>, having
  written the rows before it and nothing of \<open>bad\<close> (no padding, truncation or skipping);
  with any behaviour of the destination the loop returns an error; and the background
  worker marks a registered job as failed, with a non-empty message and the output
  location untouched.
\<close>

theorem ragged_row_fails:
  assumes "yields (noFieldCheck (NewReader input)) (first # mid @ bad # post)"
    and "\<forall>row\<in>set mid. length row = length first"
    and "length bad \<noteq> length first"
  shows "((\<forall>n. writeOK n) \<longrightarrow>
            ProcessCSV_loop writeOK (NewReader input) 0 [] =
              (Some (ReadFailed (length (filter (\<lambda>row. \<not> emptyRow row) (first # mid))) ErrFieldCount),
               specOutput (first # mid))) \<and>
         fst (ProcessCSV_loop writeOK (NewReader input) 0 []) \<noteq> None \<and>
         (lookupJob js jobID = Some job \<longrightarrow>
            (\<exists>job'. lookupJob (fst (processFileAsync showError js fs jobID input filename)) jobID = Some job' \<and>
                    Status job' = JobStatusFailed \<and> FilePath job' = FilePath job \<and> Error job' \<noteq> []))"
proof -
  from assms(1) obtain r' where rd: "Read (noFieldCheck (NewReader input)) = ((first, None), r')"
    and rest: "yields r' (mid @ bad # post)"
    using yields_Cons_Read[of "noFieldCheck (NewReader input)" first "mid @ bad # post"] by auto
  have z: "FieldsPerRecord (NewReader input) = 0" by (simp add: NewReader_def)
  from Read_noFieldCheck_row[OF rd] z obtain r2 where
    r2: "Read (NewReader input) = ((first, None), r2)" "noFieldCheck r2 = r'"
        "FieldsPerRecord r2 = int (length first)" "0 < length first"
    by auto
  have y2: "yields (noFieldCheck r2) (mid @ bad # post)" using rest r2(2) by simp
  have p2: "0 < FieldsPerRecord r2" using r2(3,4) by simp
  have m2: "\<forall>row\<in>set mid. int (length row) = FieldsPerRecord r2" using assms(2) r2(3) by simp
  have b2: "int (length bad) \<noteq> FieldsPerRecord r2" using assms(3) r2(3) by simp
  have any: "fst (ProcessCSV_loop wok (NewReader input) 0 []) \<noteq> None" for wok
  proof (cases "emptyRow first")
    case True
    then show ?thesis
      using loop_skip[OF r2(1) True] loop_ragged_any[OF y2 p2 m2 b2] by simp
  next
    case False
    show ?thesis
    proof (cases "wok 0")
      case True
      then show ?thesis
        using loop_write[where wok=wok and n=0, OF r2(1) False True] loop_ragged_any[OF y2 p2 m2 b2]
        by simp
    next
      case f: False
      then show ?thesis
        using loop_write_fails[where wok=wok and n=0, OF r2(1) False f] by simp
    qed
  qed
  have allok: "(\<forall>n. writeOK n) \<longrightarrow>
            ProcessCSV_loop writeOK (NewReader input) 0 [] =
              (Some (ReadFailed (length (filter (\<lambda>row. \<not> emptyRow row) (first # mid))) ErrFieldCount),
               specOutput (first # mid))"
  proof
    assume w: "\<forall>n. writeOK n"
    then have wk: "\<And>k. writeOK k" by simp
    show "ProcessCSV_loop writeOK (NewReader input) 0 [] =
              (Some (ReadFailed (length (filter (\<lambda>row. \<not> emptyRow row) (first # mid))) ErrFieldCount),
               specOutput (first # mid))"
    proof (cases "emptyRow first")
      case True
      then show ?thesis
        using loop_skip[OF r2(1) True] loop_ragged[where wok=writeOK, OF wk y2 p2 m2 b2, of 0 "[]"]
        unfolding outRows_0[symmetric] by simp
    next
      case False
      then show ?thesis
        using loop_write[where wok=writeOK and n=0, OF r2(1) False wk]
          loop_ragged[where wok=writeOK, OF wk y2 p2 m2 b2, of "Suc 0" "[first @ [''has_email'']]"]
        unfolding outRows_0[symmetric] by simp
    qed
  qed
  have worker: "lookupJob js jobID = Some job \<longrightarrow>
            (\<exists>job'. lookupJob (fst (processFileAsync showError js fs jobID input filename)) jobID = Some job' \<and>
                    Status job' = JobStatusFailed \<and> FilePath job' = FilePath job \<and> Error job' \<noteq> [])"
  proof
    assume l: "lookupJob js jobID = Some job"
    from processFileAsync_fails[of input showError js fs jobID filename] any obtain msg where
      m: "msg \<noteq> []" "fst (processFileAsync showError js fs jobID input filename) =
           UpdateJobStatus js jobID JobStatusFailed [] msg" by blast
    show "\<exists>job'. lookupJob (fst (processFileAsync showError js fs jobID input filename)) jobID = Some job' \<and>
                    Status job' = JobStatusFailed \<and> FilePath job' = FilePath job \<and> Error job' \<noteq> []"
      unfolding m(2) UpdateJobStatus_present[OF l] using m(1) by simp
  qed
  from allok any[of writeOK] worker show ?thesis by blast
qed

theorem ragged_row_fails_witness:
  "ProcessCSV_loop (\<lambda>n. True) (NewReader ''a,b\<newline>1,2\<newline>3,4,5\<newline>6,7\<newline>'') 0 [] =
     (Some (ReadFailed 2 ErrFieldCount), [[''a'', ''b'', ''has_email''], [''1'', ''2'', ''false'']])"
proof -
  have y: "yields (noFieldCheck (NewReader ''a,b\<newline>1,2\<newline>3,4,5\<newline>6,7\<newline>''))
      ([''a'', ''b''] # [[''1'', ''2'']] @ [''3'', ''4'', ''5''] # [[''6'', ''7'']])"
    by code_simp
  have so: "specOutput ([''a'', ''b''] # [[''1'', ''2'']]) =
      [[''a'', ''b'', ''has_email''], [''1'', ''2'', ''false'']]"
    unfolding outRows_0[symmetric] by (simp add: emptyRow_def IsValidEmail_needs_at)
  have ne: "filter (\<lambda>row. \<not> emptyRow row) ([''a'', ''b''] # [[''1'', ''2'']]) = [[''a'', ''b''], [''1'', ''2'']]"
    by (simp add: emptyRow_def)
  note t = ragged_row_fails[OF y, of "\<lambda>n. True" NewJobStore "[]" undefined "\<lambda>e. []"
      "\<lparr>files = Map.empty, canCreate = (\<lambda>p. True), canWrite = (\<lambda>p n. True),
        flushesAt = (\<lambda>p n. False), truncated = (\<lambda>p. [])\<rparr>" "[]",
      THEN conjunct1]
  have "ProcessCSV_loop (\<lambda>n. True) (NewReader ''a,b\<newline>1,2\<newline>3,4,5\<newline>6,7\<newline>'') 0 [] =
      (Some (ReadFailed (length (filter (\<lambda>row. \<not> emptyRow row) ([''a'', ''b''] # [[''1'', ''2'']]))) ErrFieldCount),
       specOutput ([''a'', ''b''] # [[''1'', ''2'']]))"
    using t by simp
  then show ?thesis unfolding so ne by simp
qed

section \<open>Reading the output back\<close>
















































section \<open>Concurrent readers and writers of the job registry\<close>

text \<open>
  The registry methods take the lock \<open>mu\<close> for their own duration only.
  \<^verbatim>\<open>GetJob\<close> returns the pointer stored in the map, and its caller reads the fields of
  the record afterwards, without the lock:
  \<^verbatim>\<open>
  job, exists := app.jobStore.GetJob(jobID)          // handlers.go, DownloadHandler
  if !exists { app.sendErrorResponse(w, http.StatusBadRequest, "Invalid job ID"); return }
  switch job.Status {
  case JobStatusProcessing: w.WriteHeader(http.StatusLocked); return
  case JobStatusFailed:     app.sendErrorResponse(w, http.StatusInternalServerError, job.Error); return
  case JobStatusCompleted:  app.serveFile(w, job.FilePath); return
  default:                  app.sendErrorResponse(w, http.StatusInternalServerError, "Unknown job status"); return
  }
  \<close>
  The model interleaves one call of \<open>UpdateJobStatus\<close> (the writer) with one run of
  these lines (the reader), one statement at a time, on the store of job objects.
\<close>

datatype response =
    BadRequest
  | Locked
  | ServerError string
  | ServeFile string

datatype writer_pc =
    W_start
  | W_locked
  | W_status addr
  | W_path addr
  | W_error addr
  | W_unlock
  | W_done

datatype reader_pc =
    R_start
  | R_locked
  | R_got "addr option"
  | R_have "addr option"
  | R_status addr JobStatus
  | R_done response

text \<open>
  The shared state: the store, the state of the \<^verbatim>\<open>sync.RWMutex\<close> (held for writing, or
  the number of read locks held), and where each of the two threads stands.
\<close>

record config =
  c_store :: JobStore
  writeLocked :: bool
  readLocks :: nat
  wpc :: writer_pc
  rpc :: reader_pc

text \<open>An assignment to a field through the pointer \<open>a\<close>.\<close>

definition assign :: "addr \<Rightarrow> (ProcessingJob \<Rightarrow> ProcessingJob) \<Rightarrow> JobStore \<Rightarrow> JobStore" where
  "assign a f js = (case heap js a of None \<Rightarrow> js | Some job \<Rightarrow> js\<lparr>heap := (heap js)(a \<mapsto> f job)\<rparr>)"

text \<open>
  One statement of \<open>UpdateJobStatus jid status filePath errorMsg\<close>: \<^verbatim>\<open>Lock\<close> (blocked
  while any lock is held), the map lookup, the three assignments in the order of the
  source, \<^verbatim>\<open>Unlock\<close>. \<open>None\<close>: the thread cannot move.
\<close>

definition stepWriter :: "string \<Rightarrow> JobStatus \<Rightarrow> string \<Rightarrow> string \<Rightarrow> config \<Rightarrow> config option" where
  "stepWriter jid status filePath errorMsg c =
     (case wpc c of
        W_start \<Rightarrow>
          if writeLocked c \<or> 0 < readLocks c then None
          else Some (c\<lparr>writeLocked := True, wpc := W_locked\<rparr>)
      | W_locked \<Rightarrow>
          (case jobs (c_store c) jid of
             None \<Rightarrow> Some (c\<lparr>wpc := W_unlock\<rparr>)
           | Some a \<Rightarrow> Some (c\<lparr>wpc := W_status a\<rparr>))
      | W_status a \<Rightarrow> Some (c\<lparr>c_store := assign a (setStatus status) (c_store c), wpc := W_path a\<rparr>)
      | W_path a \<Rightarrow> Some (c\<lparr>c_store := assign a (setFilePath filePath) (c_store c), wpc := W_error a\<rparr>)
      | W_error a \<Rightarrow> Some (c\<lparr>c_store := assign a (setError errorMsg) (c_store c), wpc := W_unlock\<rparr>)
      | W_unlock \<Rightarrow> Some (c\<lparr>writeLocked := False, wpc := W_done\<rparr>)
      | W_done \<Rightarrow> None)"

text \<open>
  One statement of the reader: \<^verbatim>\<open>RLock\<close> (blocked while the lock is held for
  writing), the map lookup of \<open>GetJob\<close>, \<^verbatim>\<open>RUnlock\<close> and return, then the read of
  \<^verbatim>\<open>job.Status\<close> for the \<^verbatim>\<open>switch\<close>, then the read of the field that the chosen
  branch sends.
\<close>

definition respond :: "JobStatus \<Rightarrow> ProcessingJob \<Rightarrow> response" where
  "respond st job =
     (if st = JobStatusProcessing then Locked
      else if st = JobStatusFailed then ServerError (Error job)
      else if st = JobStatusCompleted then ServeFile (FilePath job)
      else ServerError ''Unknown job status'')"

definition stepReader :: "string \<Rightarrow> config \<Rightarrow> config option" where
  "stepReader jid c =
     (case rpc c of
        R_start \<Rightarrow>
          if writeLocked c then None
          else Some (c\<lparr>readLocks := Suc (readLocks c), rpc := R_locked\<rparr>)
      | R_locked \<Rightarrow> Some (c\<lparr>rpc := R_got (GetJob (c_store c) jid)\<rparr>)
      | R_got p \<Rightarrow> Some (c\<lparr>readLocks := readLocks c - 1, rpc := R_have p\<rparr>)
      | R_have p \<Rightarrow>
          (case p of
             None \<Rightarrow> Some (c\<lparr>rpc := R_done BadRequest\<rparr>)
           | Some a \<Rightarrow>
               (case heap (c_store c) a of
                  None \<Rightarrow> None
                | Some job \<Rightarrow> Some (c\<lparr>rpc := R_status a (Status job)\<rparr>)))
      | R_status a st \<Rightarrow>
          (case heap (c_store c) a of
             None \<Rightarrow> None
           | Some job \<Rightarrow> Some (c\<lparr>rpc := R_done (respond st job)\<rparr>))
      | R_done resp \<Rightarrow> None)"

datatype thread = Reader | Writer

text \<open>A schedule names the thread that makes each step.\<close>

fun run :: "string \<Rightarrow> JobStatus \<Rightarrow> string \<Rightarrow> string \<Rightarrow> thread list \<Rightarrow> config \<Rightarrow> config option" where
  "run jid status filePath errorMsg [] c = Some c"
| "run jid status filePath errorMsg (t # ts) c =
     (case (case t of Reader \<Rightarrow> stepReader jid c
                    | Writer \<Rightarrow> stepWriter jid status filePath errorMsg c) of
        None \<Rightarrow> None
      | Some c' \<Rightarrow> run jid status filePath errorMsg ts c')"

definition startConfig :: "JobStore \<Rightarrow> config" where
  "startConfig js = \<lparr>c_store = js, writeLocked = False, readLocks = 0, wpc = W_start, rpc = R_start\<rparr>"

text \<open>The writer alone, run to its end, does what \<open>UpdateJobStatus\<close> does.\<close>

lemma writer_alone:
  "\<exists>n. map_option (\<lambda>c. (c_store c, writeLocked c, readLocks c, wpc c, rpc c))
         (run jid status filePath errorMsg (replicate n Writer) (startConfig js)) =
       Some (UpdateJobStatus js jid status filePath errorMsg, False, 0, W_done, R_start)"
proof (cases "jobs js jid")
  case None
  then have "map_option (\<lambda>c. (c_store c, writeLocked c, readLocks c, wpc c, rpc c))
         (run jid status filePath errorMsg (replicate 3 Writer) (startConfig js)) =
       Some (UpdateJobStatus js jid status filePath errorMsg, False, 0, W_done, R_start)"
    by (simp add: numeral_3_eq_3 startConfig_def stepWriter_def UpdateJobStatus_def)
  then show ?thesis by blast
next
  case (Some a)
  then have "map_option (\<lambda>c. (c_store c, writeLocked c, readLocks c, wpc c, rpc c))
         (run jid status filePath errorMsg (replicate 6 Writer) (startConfig js)) =
       Some (UpdateJobStatus js jid status filePath errorMsg, False, 0, W_done, R_start)"
    by (cases "heap js a")
       (simp_all add: eval_nat_numeral startConfig_def stepWriter_def UpdateJobStatus_def assign_def)
  then show ?thesis by blast
qed

text \<open>
  Claim C8, at one interleaving. A job \<^verbatim>\<open>j1\<close> is registered; the worker reports a failure,
  \<^verbatim>\<open>UpdateJobStatus("j1", "failed", "", "boom")\<close>, while a download of \<^verbatim>\<open>j1\<close> runs.
  The reader finishes \<open>GetJob\<close> first; the writer takes the lock and assigns the status;
  the reader reads the status \<^verbatim>\<open>failed\<close> and then the error message, still empty; the
  writer assigns the message and unlocks. The reader answers with a server error
  carrying the empty message, a pair of fields that the record holds neither before
  (\<^verbatim>\<open>processing\<close>) nor after (\<^verbatim>\<open>failed\<close> with \<^verbatim>\<open>boom\<close>) the update.
\<close>

theorem torn_read_interleaving:
  "map_option (\<lambda>c. (rpc c, wpc c, writeLocked c, lookupJob (c_store c) ''j1''))
     (run ''j1'' JobStatusFailed [] ''boom''
        [Reader, Reader, Reader, Writer, Writer, Writer, Reader, Reader, Writer, Writer, Writer]
        (startConfig (snd (CreateJob NewJobStore ''j1'' 0)))) =
   Some (R_done (ServerError []), W_done, False,
         Some \<lparr>ID = ''j1'', Status = JobStatusFailed, CreatedAt = 0, FilePath = [], Error = ''boom''\<rparr>)"
  by (simp add: startConfig_def stepReader_def stepWriter_def CreateJob_def NewJobStore_def
      GetJob_def lookupJob_def assign_def setStatus_def setFilePath_def setError_def respond_def
      JobStatusFailed_def JobStatusProcessing_def Let_def)

end
